theory Spec2Isabelle
  imports Main
begin

section \<open>The Bento loader and its deferred-dispatch proxy\<close>

text \<open>
  The development follows the loader module that carries the load-error bookkeeping
  (\<^verbatim>\<open>loaderPromise\<close>, \<^verbatim>\<open>loadError\<close>, \<^verbatim>\<open>isLoading\<close>, a configurable
  timeout and \<^verbatim>\<open>resetBento\<close>). JavaScript runs one callback at a time; a step of the
  model is one call of the public surface or one event of the page (the readiness event, a
  script error, a timer), together with the promise reactions that this callback enables,
  which the runtime runs before any other callback.
\<close>

subsection \<open>Values, the binding and errors\<close>

datatype jsval = JUndefined | JBool bool | JNum int | JStr string

text \<open>What a function of the vendor's object does when it is invoked.\<close>

datatype outcome = Returns jsval | Throws string

datatype slot = Fn outcome | NotFn jsval

text \<open>
  \<^verbatim>\<open>window.bento\<close>: the own enumerable properties of the object, in key order.
  Properties the object inherits from a prototype are not part of this model.
\<close>

type_synonym binding = "(string \<times> slot) list"

definition is_function :: "binding \<Rightarrow> string \<Rightarrow> bool" where
  "is_function b m = (case map_of b m of Some (Fn oc) \<Rightarrow> True | _ \<Rightarrow> False)"

text \<open>\<^verbatim>\<open>Object.keys(window.bento).filter((k) => typeof window.bento[k] === 'function')\<close>\<close>

definition function_keys :: "binding \<Rightarrow> string list" where
  "function_keys b = filter (is_function b) (map fst b)"

text \<open>
  The errors of the module, one constructor per message template; the constructor carries
  the values the template interpolates.
\<close>

datatype err =
    ScriptLoadError string
  | NotInitialized
  | LoadTimeout int
  | InvalidSiteUuid
  | InvalidURL string
  | BentoFailedToLoad string err
  | MethodNotAvailable string "string list"
  | Thrown string
  | NotAFunction string

datatype 'a pstate = Pending | Resolved 'a | Rejected err

record config =
  siteUuid :: "string option"
  scriptSrc :: "string option"
  useAdvancedInstallation :: bool
  timeout :: "int option"

datatype log =
    LogDevLoading config
  | LogScriptError nat
  | LogFailedToLoad err
  | LogMethodAvailable string
  | LogCannotCall string err
  | LogMayNeedReset
  | LogMessage err

subsection \<open>The page and the module state\<close>

text \<open>
  A listener or a timer is identified by the closure that registered it: the
  \<^verbatim>\<open>handleReady\<close> and the timeout of the \<open>k\<close>-th call of \<^verbatim>\<open>injectScript\<close>, the
  \<^verbatim>\<open>handleReady\<close> and the interval of the \<open>k\<close>-th call of \<^verbatim>\<open>waitForMethod\<close>. A timer
  carries the time at which it is due.
\<close>

datatype listener = InjReady nat | WaitReady nat

datatype tkind = InjTimeout nat | WaitInterval nat

type_synonym timer = "tkind \<times> nat"

text \<open>What \<^verbatim>\<open>window.bento$\<close> does with the callback it is given.\<close>

datatype dollar = DollarNotFn | DollarRuns | DollarDefers | DollarThrows string

text \<open>
  One record per call of \<^verbatim>\<open>injectScript\<close>: its arguments, whether a script element was
  created, \<^verbatim>\<open>hasResolved\<close> and the state of the promise it returned. \<^verbatim>\<open>loadBento\<close> is
  the only caller; \<open>ld_advanced\<close> is the \<^verbatim>\<open>config.useAdvancedInstallation\<close> its
  \<^verbatim>\<open>.then\<close> callback reads and \<open>ld_promise\<close> the state of the promise
  \<^verbatim>\<open>injectScript(...).then(...).catch(...)\<close> that it stores in \<^verbatim>\<open>loaderPromise\<close>.
\<close>

record injection =
  inj_src :: string
  inj_timeout :: int
  inj_element :: bool
  hasResolved :: bool
  inj_promise :: "binding pstate"
  ld_advanced :: bool
  ld_promise :: "binding pstate"

text \<open>
  The consumer of a \<^verbatim>\<open>waitForMethod\<close> promise: the generic dispatcher with the
  arguments it captured, or the \<^verbatim>\<open>spamCheck\<close> wrapper with its email.
\<close>

datatype cont = Dispatch "jsval list" | SpamCheck jsval

text \<open>
  One record per call of \<^verbatim>\<open>waitForMethod\<close>; \<open>w_out\<close> is the state of the promise at
  the end of the consumer's chain: the one \<^verbatim>\<open>.then(...).catch(...)\<close> returns in the
  generic dispatcher, the one the \<^verbatim>\<open>spamCheck\<close> wrapper hands to its caller.
\<close>

record wait =
  w_method :: string
  attempts :: nat
  w_promise :: "binding pstate"
  w_cont :: cont
  w_out :: "jsval pstate"

record world =
  has_window :: bool
  hostname :: string
  url_api :: "string \<Rightarrow> string \<Rightarrow> string option"
  bento :: "binding option"
  bento_dollar :: "dollar option"
  head :: "nat list"
  ready_listeners :: "listener list"
  timers :: "timer list"
  now :: nat
  loaderPromise :: "nat option"
  loadError :: "err option"
  isLoading :: bool
  injections :: "injection list"
  waits :: "wait list"
  console :: "log list"
  calls :: "(string \<times> jsval list) list"

text \<open>
  \<open>url_api base uuid\<close> is the platform's \<^verbatim>\<open>new URL(base)\<close> followed by
  \<^verbatim>\<open>searchParams.set('site_uuid', uuid)\<close> and \<^verbatim>\<open>toString()\<close>: \<open>None\<close> when the
  constructor throws its \<^verbatim>\<open>TypeError\<close>. \<open>head\<close> lists the script elements attached to
  \<^verbatim>\<open>document.head\<close>, each named by the injection that created it. \<open>calls\<close> lists the
  invocations that reached the binding.
\<close>

definition logline :: "log \<Rightarrow> world \<Rightarrow> world" where
  "logline l w = w\<lparr>console := console w @ [l]\<rparr>"

definition upd_inj :: "nat \<Rightarrow> (injection \<Rightarrow> injection) \<Rightarrow> world \<Rightarrow> world" where
  "upd_inj k f w = w\<lparr>injections := (injections w)[k := f (injections w ! k)]\<rparr>"

definition upd_wait :: "nat \<Rightarrow> (wait \<Rightarrow> wait) \<Rightarrow> world \<Rightarrow> world" where
  "upd_wait k f w = w\<lparr>waits := (waits w)[k := f (waits w ! k)]\<rparr>"

definition method_available :: "world \<Rightarrow> string \<Rightarrow> bool" where
  "method_available w m = (case bento w of Some b \<Rightarrow> is_function b m | None \<Rightarrow> False)"

subsection \<open>\<^verbatim>\<open>resetBento\<close> and the reactions of \<^verbatim>\<open>loadBento\<close>\<close>

definition resetBento :: "world \<Rightarrow> world" where
  "resetBento w = w\<lparr>loaderPromise := None, loadError := None, isLoading := False\<rparr>"

text \<open>The \<^verbatim>\<open>.catch\<close> callback of \<^verbatim>\<open>loadBento\<close>; it rethrows, so the stored promise rejects.\<close>

definition load_catch :: "nat \<Rightarrow> err \<Rightarrow> world \<Rightarrow> world" where
  "load_catch k e w =
     upd_inj k (\<lambda>r. r\<lparr>ld_promise := Rejected e\<rparr>)
       (logline (LogFailedToLoad e)
         (w\<lparr>isLoading := False, loadError := Some e, loaderPromise := None\<rparr>))"

text \<open>
  The callback handed to \<^verbatim>\<open>window.bento$\<close>: it calls \<^verbatim>\<open>window.bento.view()\<close> when
  that is a function. The result is the world and the exception that escapes, if any.
\<close>

definition view_callback :: "world \<Rightarrow> world \<times> string option" where
  "view_callback w =
     (case bento w of
        None \<Rightarrow> (w, None)
      | Some b \<Rightarrow>
          (case map_of b ''view'' of
             Some (Fn oc) \<Rightarrow>
               (w\<lparr>calls := calls w @ [(''view'', [])]\<rparr>,
                case oc of Returns v \<Rightarrow> None | Throws s \<Rightarrow> Some s)
           | _ \<Rightarrow> (w, None)))"

definition call_dollar :: "world \<Rightarrow> world \<times> string option" where
  "call_dollar w =
     (case bento_dollar w of
        Some DollarRuns \<Rightarrow> view_callback w
      | Some (DollarThrows s) \<Rightarrow> (w, Some s)
      | _ \<Rightarrow> (w, None))"

text \<open>
  The \<^verbatim>\<open>.then\<close> callback of \<^verbatim>\<open>loadBento\<close>. An exception inside it rejects the promise
  \<^verbatim>\<open>.then\<close> returned, which runs the \<^verbatim>\<open>.catch\<close> callback.
\<close>

definition load_then :: "nat \<Rightarrow> binding \<Rightarrow> world \<Rightarrow> world" where
  "load_then k api w =
     (let w1 = w\<lparr>isLoading := False, loadError := None\<rparr>;
          (w2, thrown) = (if ld_advanced (injections w1 ! k) then call_dollar w1 else (w1, None))
      in case thrown of
           None \<Rightarrow> upd_inj k (\<lambda>r. r\<lparr>ld_promise := Resolved api\<rparr>) w2
         | Some s \<Rightarrow> load_catch k (Thrown s) w2)"

subsection \<open>\<^verbatim>\<open>injectScript\<close>\<close>

definition cleanup_inj :: "nat \<Rightarrow> bool \<Rightarrow> world \<Rightarrow> world" where
  "cleanup_inj k removeScript w =
     w\<lparr>ready_listeners := removeAll (InjReady k) (ready_listeners w),
       timers := filter (\<lambda>t. fst t \<noteq> InjTimeout k) (timers w),
       head := (if removeScript then removeAll k (head w) else head w)\<rparr>"

definition handleSuccess :: "nat \<Rightarrow> binding \<Rightarrow> world \<Rightarrow> world" where
  "handleSuccess k api w =
     (if hasResolved (injections w ! k) then w
      else load_then k api
             (upd_inj k (\<lambda>r. r\<lparr>inj_promise := Resolved api\<rparr>)
               (cleanup_inj k False (upd_inj k (\<lambda>r. r\<lparr>hasResolved := True\<rparr>) w))))"

definition handleError :: "nat \<Rightarrow> err \<Rightarrow> world \<Rightarrow> world" where
  "handleError k e w =
     (if hasResolved (injections w ! k) then w
      else load_catch k e
             (upd_inj k (\<lambda>r. r\<lparr>inj_promise := Rejected e\<rparr>)
               (cleanup_inj k True (upd_inj k (\<lambda>r. r\<lparr>hasResolved := True\<rparr>) w))))"

definition script_onerror :: "nat \<Rightarrow> world \<Rightarrow> world" where
  "script_onerror k w =
     handleError k (ScriptLoadError (inj_src (injections w ! k))) (logline (LogScriptError k) w)"

definition inj_handleReady :: "nat \<Rightarrow> world \<Rightarrow> world" where
  "inj_handleReady k w =
     (case bento w of
        Some b \<Rightarrow> handleSuccess k b w
      | None \<Rightarrow> handleError k NotInitialized w)"

definition inj_timeout_cb :: "nat \<Rightarrow> world \<Rightarrow> world" where
  "inj_timeout_cb k w = handleError k (LoadTimeout (inj_timeout (injections w ! k))) w"

text \<open>
  The delay \<^verbatim>\<open>setTimeout\<close> makes of its second argument. The browser converts the
  number to a signed 32-bit integer (modulo \<open>2^32\<close>, a result from \<open>2^31\<close> on standing for
  the negative number \<open>2^32\<close> below it) and takes a negative delay for zero. So a duration
  between 0 and 2147483647 ms is the delay itself, and one of 2147483648 ms or of
  3000000000 ms is no delay at all. Durations are whole numbers of milliseconds here.
\<close>

definition setTimeout_delay :: "int \<Rightarrow> nat" where
  "setTimeout_delay t =
     (let x = t mod 4294967296 in if 2147483648 \<le> x then 0 else nat x)"

text \<open>
  The executor of \<^verbatim>\<open>injectScript\<close>. The result names the new record. The error of the
  timeout callback interpolates \<^verbatim>\<open>timeout\<close> itself, not the delay made of it.
\<close>

definition injectScript :: "string \<Rightarrow> int \<Rightarrow> world \<Rightarrow> nat \<times> world" where
  "injectScript src tmo w =
     (let k = length (injections w) in
      case bento w of
        Some b \<Rightarrow>
          (k, w\<lparr>injections := injections w @
                  [\<lparr>inj_src = src, inj_timeout = tmo, inj_element = False, hasResolved = False,
                    inj_promise = Resolved b, ld_advanced = False, ld_promise = Pending\<rparr>]\<rparr>)
      | None \<Rightarrow>
          (k, w\<lparr>injections := injections w @
                  [\<lparr>inj_src = src, inj_timeout = tmo, inj_element = True, hasResolved = False,
                    inj_promise = Pending, ld_advanced = False, ld_promise = Pending\<rparr>],
                ready_listeners := ready_listeners w @ [InjReady k],
                timers := timers w @ [(InjTimeout k, now w + setTimeout_delay tmo)],
                head := head w @ [k]\<rparr>))"

subsection \<open>\<^verbatim>\<open>loadBento\<close>\<close>

text \<open>\<^verbatim>\<open>!config.siteUuid || config.siteUuid === 'undefined'\<close>\<close>

definition invalid_siteUuid :: "string option \<Rightarrow> bool" where
  "invalid_siteUuid u = (case u of None \<Rightarrow> True | Some s \<Rightarrow> s = [] \<or> s = ''undefined'')"

text \<open>\<^verbatim>\<open>config.timeout || 30000\<close>: zero is falsy.\<close>

definition effective_timeout :: "config \<Rightarrow> int" where
  "effective_timeout cfg = (case timeout cfg of None \<Rightarrow> 30000 | Some t \<Rightarrow> if t = 0 then 30000 else t)"

definition script_url :: "config \<Rightarrow> world \<Rightarrow> string option" where
  "script_url cfg w =
     (let uuid = (case siteUuid cfg of Some s \<Rightarrow> s | None \<Rightarrow> ''undefined'') in
      if useAdvancedInstallation cfg then Some (''https://app.bentonow.com/'' @ uuid @ ''.js'')
      else url_api w (case scriptSrc cfg of Some s \<Rightarrow> s | None \<Rightarrow> ''https://fast.bentonow.com'') uuid)"

text \<open>
  What \<^verbatim>\<open>loadBento\<close> returns: a promise made on the spot, already settled, or the promise
  stored in \<^verbatim>\<open>loaderPromise\<close>, named by its record. (The \<^verbatim>\<open>async\<close> wrapper hands the
  caller a promise that follows the returned one.)
\<close>

datatype init_result = Fresh "binding pstate" | Stored nat

text \<open>
  The reactions chained on the injector's promise run once it is settled; for a promise
  that \<^verbatim>\<open>injectScript\<close> resolved at once, they run right after \<^verbatim>\<open>loadBento\<close> returns.
\<close>

definition chain_reactions :: "nat \<Rightarrow> world \<Rightarrow> world" where
  "chain_reactions k w =
     (case inj_promise (injections w ! k) of
        Pending \<Rightarrow> w
      | Resolved api \<Rightarrow> load_then k api w
      | Rejected e \<Rightarrow> load_catch k e w)"

definition start_load :: "config \<Rightarrow> string \<Rightarrow> world \<Rightarrow> init_result \<times> world" where
  "start_load cfg u w =
     (let (k, w1) = injectScript u (effective_timeout cfg) (w\<lparr>isLoading := True\<rparr>);
          w2 = upd_inj k (\<lambda>r. r\<lparr>ld_advanced := useAdvancedInstallation cfg\<rparr>) w1;
          w3 = w2\<lparr>loaderPromise := Some k\<rparr>
      in (Stored k, chain_reactions k w3))"

text \<open>\<^verbatim>\<open>if (loadError) { resetBento(); }\<close>\<close>

definition implicit_reset :: "world \<Rightarrow> world" where
  "implicit_reset w = (if loadError w \<noteq> None then resetBento w else w)"

text \<open>\<^verbatim>\<open>if (isLocalhost) console.log(..., config)\<close>\<close>

definition dev_log :: "config \<Rightarrow> world \<Rightarrow> world" where
  "dev_log cfg w = (if hostname w = ''localhost'' then logline (LogDevLoading cfg) w else w)"

definition loadBento :: "config \<Rightarrow> world \<Rightarrow> init_result \<times> world" where
  "loadBento cfg w =
     (if \<not> has_window w then (Fresh (Resolved []), w)
      else case bento w of
        Some b \<Rightarrow> (Fresh (Resolved b), w)
      | None \<Rightarrow>
         (case loaderPromise w of
            Some p \<Rightarrow> (Stored p, w)
          | None \<Rightarrow>
             (let w1 = implicit_reset w in
              if invalid_siteUuid (siteUuid cfg)
              then (Fresh (Rejected InvalidSiteUuid), w1\<lparr>loadError := Some InvalidSiteUuid\<rparr>)
              else
                (let w2 = dev_log cfg w1 in
                 case script_url cfg w2 of
                   None \<Rightarrow>
                     (Fresh (Rejected (InvalidURL (case scriptSrc cfg of Some s \<Rightarrow> s | None \<Rightarrow> []))), w2)
                 | Some u \<Rightarrow> start_load cfg u w2))))"

subsection \<open>\<^verbatim>\<open>waitForMethod\<close> and the proxy\<close>

definition cleanup_wait :: "nat \<Rightarrow> world \<Rightarrow> world" where
  "cleanup_wait k w =
     w\<lparr>ready_listeners := removeAll (WaitReady k) (ready_listeners w),
       timers := filter (\<lambda>t. fst t \<noteq> WaitInterval k) (timers w)\<rparr>"

text \<open>
  The consumer's callbacks. The generic dispatcher applies the method to the captured
  arguments and logs what it catches; the \<^verbatim>\<open>spamCheck\<close> wrapper returns what
  \<^verbatim>\<open>api.spamCheck(email)\<close> gives and lets every rejection through.
\<close>

definition on_settled :: "nat \<Rightarrow> binding pstate \<Rightarrow> world \<Rightarrow> world" where
  "on_settled k st w =
     (let m = w_method (waits w ! k) in
      case w_cont (waits w ! k) of
        Dispatch args \<Rightarrow>
          (case st of
             Pending \<Rightarrow> w
           | Resolved api \<Rightarrow>
               (case map_of api m of
                  Some (Fn oc) \<Rightarrow>
                    (let w1 = w\<lparr>calls := calls w @ [(m, args)]\<rparr>;
                         w2 = (case oc of Returns v \<Rightarrow> w1 | Throws s \<Rightarrow> logline (LogMessage (Thrown s)) w1)
                     in upd_wait k (\<lambda>x. x\<lparr>w_out := Resolved JUndefined\<rparr>) w2)
                | _ \<Rightarrow> upd_wait k (\<lambda>x. x\<lparr>w_out := Resolved JUndefined\<rparr>) w)
           | Rejected e \<Rightarrow>
               upd_wait k (\<lambda>x. x\<lparr>w_out := Resolved JUndefined\<rparr>) (logline (LogMessage e) w))
      | SpamCheck email \<Rightarrow>
          (case st of
             Pending \<Rightarrow> w
           | Resolved api \<Rightarrow>
               (case map_of api ''spamCheck'' of
                  Some (Fn oc) \<Rightarrow>
                    upd_wait k
                      (\<lambda>x. x\<lparr>w_out := (case oc of Returns v \<Rightarrow> Resolved v | Throws s \<Rightarrow> Rejected (Thrown s))\<rparr>)
                      (w\<lparr>calls := calls w @ [(''spamCheck'', [email])]\<rparr>)
                | _ \<Rightarrow> upd_wait k (\<lambda>x. x\<lparr>w_out := Rejected (NotAFunction ''spamCheck'')\<rparr>) w)
           | Rejected e \<Rightarrow> upd_wait k (\<lambda>x. x\<lparr>w_out := Rejected e\<rparr>) w))"

text \<open>\<^verbatim>\<open>resolve\<close> and \<^verbatim>\<open>reject\<close>: settling a settled promise does nothing.\<close>

definition settle_wait :: "nat \<Rightarrow> binding pstate \<Rightarrow> world \<Rightarrow> world" where
  "settle_wait k st w =
     (if w_promise (waits w ! k) \<noteq> Pending then w
      else on_settled k st (upd_wait k (\<lambda>x. x\<lparr>w_promise := st\<rparr>) w))"

definition maxAttempts :: nat where
  "maxAttempts = 50"

definition checkMethod :: "nat \<Rightarrow> world \<Rightarrow> world" where
  "checkMethod k w =
     (let w1 = upd_wait k (\<lambda>x. x\<lparr>attempts := attempts x + 1\<rparr>) w;
          m = w_method (waits w1 ! k)
      in case loadError w1 of
           Some e \<Rightarrow> settle_wait k (Rejected (BentoFailedToLoad m e)) (cleanup_wait k w1)
         | None \<Rightarrow>
             (case (if method_available w1 m then bento w1 else None) of
                Some b \<Rightarrow> settle_wait k (Resolved b) (logline (LogMethodAvailable m) (cleanup_wait k w1))
              | None \<Rightarrow>
                  if attempts (waits w1 ! k) \<ge> maxAttempts
                  then (let w2 = cleanup_wait k w1;
                            available = (case bento w2 of Some b \<Rightarrow> function_keys b | None \<Rightarrow> [])
                        in settle_wait k (Rejected (MethodNotAvailable m available)) w2)
                  else w1))"

definition wait_handleReady :: "nat \<Rightarrow> world \<Rightarrow> world" where
  "wait_handleReady k w = checkMethod k (cleanup_wait k w)"

definition new_wait :: "string \<Rightarrow> cont \<Rightarrow> binding pstate \<Rightarrow> wait" where
  "new_wait m c st = \<lparr>w_method = m, attempts = 0, w_promise = st, w_cont = c, w_out = Pending\<rparr>"

text \<open>
  \<^verbatim>\<open>waitForMethod\<close>, with the consumer that is chained on its promise. The result names
  the new record.
\<close>

definition waitForMethod :: "string \<Rightarrow> cont \<Rightarrow> world \<Rightarrow> nat \<times> world" where
  "waitForMethod m c w =
     (let k = length (waits w) in
      case loadError w of
        Some e \<Rightarrow>
          (let st = Rejected (BentoFailedToLoad m e)
           in (k, on_settled k st (w\<lparr>waits := waits w @ [new_wait m c st]\<rparr>)))
      | None \<Rightarrow>
          (case (if method_available w m then bento w else None) of
             Some b \<Rightarrow> (k, on_settled k (Resolved b) (w\<lparr>waits := waits w @ [new_wait m c (Resolved b)]\<rparr>))
           | None \<Rightarrow>
               (k, checkMethod k
                     (w\<lparr>waits := waits w @ [new_wait m c Pending],
                        ready_listeners := ready_listeners w @ [WaitReady k],
                        timers := timers w @ [(WaitInterval k, now w + 100)]\<rparr>))))"

text \<open>The \<^verbatim>\<open>get\<close> trap of the proxy picks the function a property access returns.\<close>

datatype handler = HInit | HNoop | HGetEmail | HSpamCheck | HGeneric string

definition proxy_get :: "world \<Rightarrow> string \<Rightarrow> handler" where
  "proxy_get w p =
     (if p = ''init'' then HInit
      else if \<not> has_window w then HNoop
      else if p = ''getEmail'' then HGetEmail
      else if p = ''spamCheck'' then HSpamCheck
      else HGeneric p)"

text \<open>
  What a call of a proxied function gives its caller: a value, an exception, or the promise
  of the \<^verbatim>\<open>spamCheck\<close> wrapper, named by its wait record.
\<close>

datatype ret = Ret jsval | Threw string | RetPromise nat

definition getEmail_fn :: "world \<Rightarrow> ret \<times> world" where
  "getEmail_fn w =
     (case bento w of
        None \<Rightarrow> (Ret JUndefined, w)
      | Some b \<Rightarrow>
          (case map_of b ''getEmail'' of
             Some (Fn oc) \<Rightarrow>
               (case oc of Returns v \<Rightarrow> Ret v | Throws s \<Rightarrow> Threw s,
                w\<lparr>calls := calls w @ [(''getEmail'', [])]\<rparr>)
           | _ \<Rightarrow> (Ret JUndefined, w)))"

definition spamCheck_fn :: "jsval list \<Rightarrow> world \<Rightarrow> ret \<times> world" where
  "spamCheck_fn args w =
     (let email = (case args of [] \<Rightarrow> JUndefined | a # as \<Rightarrow> a);
          (k, w1) = waitForMethod ''spamCheck'' (SpamCheck email) w
      in (RetPromise k, w1))"

definition generic_fn :: "string \<Rightarrow> jsval list \<Rightarrow> world \<Rightarrow> ret \<times> world" where
  "generic_fn methodName args w =
     (case loadError w of
        Some e \<Rightarrow> (Ret JUndefined, logline LogMayNeedReset (logline (LogCannotCall methodName e) w))
      | None \<Rightarrow> (Ret JUndefined, snd (waitForMethod methodName (Dispatch args) w)))"

text \<open>
  \<^verbatim>\<open>bento[p](...args)\<close> for a property other than \<^verbatim>\<open>init\<close>. \<^verbatim>\<open>bento.init\<close> is
  \<^verbatim>\<open>loadBento\<close>, whose argument is a configuration: it is not applied to plain values.
\<close>

definition invoke :: "string \<Rightarrow> jsval list \<Rightarrow> world \<Rightarrow> ret \<times> world" where
  "invoke p args w =
     (case proxy_get w p of
        HInit \<Rightarrow> (Ret JUndefined, w)
      | HNoop \<Rightarrow> (Ret JUndefined, w)
      | HGetEmail \<Rightarrow> getEmail_fn w
      | HSpamCheck \<Rightarrow> spamCheck_fn args w
      | HGeneric m \<Rightarrow> generic_fn m args w)"

definition getBentoLoadError :: "world \<Rightarrow> err option" where
  "getBentoLoadError w = loadError w"

definition isBentoLoading :: "world \<Rightarrow> bool" where
  "isBentoLoading w = isLoading w"

subsection \<open>Events of the page\<close>

text \<open>
  Dispatching \<^verbatim>\<open>bento:ready\<close> runs the listeners registered when the dispatch starts,
  in registration order, skipping one that has been removed in the meantime. Here the
  promise reactions a listener enables run before the next listener, as they do after each
  listener of an event the browser raises; when a script raises the event with
  \<^verbatim>\<open>dispatchEvent\<close>, the reactions of all listeners run after the last of them, an
  order this model does not cover.
\<close>

definition run_listener :: "listener \<Rightarrow> world \<Rightarrow> world" where
  "run_listener l w =
     (if l \<in> set (ready_listeners w)
      then (case l of InjReady k \<Rightarrow> inj_handleReady k w | WaitReady k \<Rightarrow> wait_handleReady k w)
      else w)"

definition dispatch_ready :: "world \<Rightarrow> world" where
  "dispatch_ready w = fold run_listener (ready_listeners w) w"

text \<open>The timer that is due first; among equals, the one registered first.\<close>

fun next_timer :: "timer list \<Rightarrow> timer option" where
  "next_timer [] = None"
| "next_timer (t # ts) =
     (case next_timer ts of
        None \<Rightarrow> Some t
      | Some u \<Rightarrow> if snd t \<le> snd u then Some t else Some u)"

text \<open>A timeout leaves the registry when it fires; an interval is due again 100 later.\<close>

definition fire :: "timer \<Rightarrow> world \<Rightarrow> world" where
  "fire t w =
     (case fst t of
        InjTimeout k \<Rightarrow> inj_timeout_cb k (w\<lparr>timers := removeAll t (timers w)\<rparr>)
      | WaitInterval k \<Rightarrow>
          checkMethod k (w\<lparr>timers := map (\<lambda>u. if u = t then (fst t, snd t + 100) else u) (timers w)\<rparr>))"

text \<open>
  Time passes: by \<open>dt\<close> when no timer is due within it, otherwise up to the timer that is
  due first, which fires.
\<close>

definition elapse :: "nat \<Rightarrow> world \<Rightarrow> world" where
  "elapse dt w =
     (case next_timer (timers w) of
        None \<Rightarrow> w\<lparr>now := now w + dt\<rparr>
      | Some t \<Rightarrow>
          if snd t \<le> now w + dt then fire t (w\<lparr>now := max (now w) (snd t)\<rparr>)
          else w\<lparr>now := now w + dt\<rparr>)"

datatype event =
    Init config
  | Reset
  | Invoke string "jsval list"
  | Populate binding
  | PopulateDollar dollar
  | Ready
  | ScriptError nat
  | Elapse nat

definition step :: "event \<Rightarrow> world \<Rightarrow> world" where
  "step e w =
     (case e of
        Init cfg \<Rightarrow> snd (loadBento cfg w)
      | Reset \<Rightarrow> resetBento w
      | Invoke p args \<Rightarrow> snd (invoke p args w)
      | Populate b \<Rightarrow> w\<lparr>bento := Some b\<rparr>
      | PopulateDollar d \<Rightarrow> w\<lparr>bento_dollar := Some d\<rparr>
      | Ready \<Rightarrow> dispatch_ready w
      | ScriptError k \<Rightarrow>
          (if k < length (injections w) \<and> inj_element (injections w ! k) then script_onerror k w else w)
      | Elapse dt \<Rightarrow> elapse dt w)"

definition run :: "event list \<Rightarrow> world \<Rightarrow> world" where
  "run es w = fold step es w"

text \<open>A page that has just loaded the module, at time 0.\<close>

definition fresh_world :: "string \<Rightarrow> (string \<Rightarrow> string \<Rightarrow> string option) \<Rightarrow> world" where
  "fresh_world host url =
     \<lparr>has_window = True, hostname = host, url_api = url, bento = None, bento_dollar = None,
      head = [], ready_listeners = [], timers = [], now = 0, loaderPromise = None,
      loadError = None, isLoading = False, injections = [], waits = [], console = [], calls = []\<rparr>"

subsection \<open>Notions the statements use\<close>

definition is_inj_listener :: "listener \<Rightarrow> bool" where
  "is_inj_listener l = (case l of InjReady k \<Rightarrow> True | WaitReady k \<Rightarrow> False)"

definition is_inj_timer :: "timer \<Rightarrow> bool" where
  "is_inj_timer t = (case fst t of InjTimeout k \<Rightarrow> True | WaitInterval k \<Rightarrow> False)"

definition loader_view ::
  "world \<Rightarrow> bool \<times> binding option \<times> dollar option \<times> nat list \<times> listener list \<times> timer list \<times> nat \<times>
     nat option \<times> err option \<times> bool \<times> injection list" where
  "loader_view w =
     (has_window w, bento w, bento_dollar w, head w, filter is_inj_listener (ready_listeners w),
      filter is_inj_timer (timers w), now w, loaderPromise w, loadError w, isLoading w, injections w)"

definition in_flight :: "world \<Rightarrow> nat \<Rightarrow> bool" where
  "in_flight w k = (k < length (injections w) \<and> \<not> hasResolved (injections w ! k))"

definition torn_down :: "world \<Rightarrow> nat \<Rightarrow> bool" where
  "torn_down w k = (InjReady k \<notin> set (ready_listeners w) \<and> InjTimeout k \<notin> fst ` set (timers w))"

text \<open>The promise the loader stores settles to the binding unless the callback throws.\<close>

definition then_result :: "nat \<Rightarrow> binding \<Rightarrow> world \<Rightarrow> binding pstate" where
  "then_result k api w =
     (if ld_advanced (injections w ! k)
      then (case snd (call_dollar w) of None \<Rightarrow> Resolved api | Some s \<Rightarrow> Rejected (Thrown s))
      else Resolved api)"

definition settled_as :: "world \<Rightarrow> nat \<Rightarrow> injection \<Rightarrow> bool" where
  "settled_as w k r = (k < length (injections w) \<and> injections w ! k = r \<and> hasResolved r \<and> torn_down w k)"

text \<open>The record a fresh injection starts with.\<close>

definition new_injection :: "string \<Rightarrow> int \<Rightarrow> bool \<Rightarrow> injection" where
  "new_injection u tmo adv =
     \<lparr>inj_src = u, inj_timeout = tmo, inj_element = True, hasResolved = False,
      inj_promise = Pending, ld_advanced = adv, ld_promise = Pending\<rparr>"

text \<open>The readiness handler of an injection in flight, run on its own.\<close>

definition ready_outcome :: "world \<Rightarrow> binding pstate" where
  "ready_outcome w = (case bento w of Some b \<Rightarrow> Resolved b | None \<Rightarrow> Rejected NotInitialized)"

definition awaiting_ready :: "world \<Rightarrow> nat \<Rightarrow> bool" where
  "awaiting_ready w k = (in_flight w k \<and> InjReady k \<in> set (ready_listeners w))"

definition ready_done :: "world \<Rightarrow> nat \<Rightarrow> binding pstate \<Rightarrow> bool \<Rightarrow> bool" where
  "ready_done w k st failed =
     (k < length (injections w) \<and> hasResolved (injections w ! k) \<and>
      inj_promise (injections w ! k) = st \<and> torn_down w k \<and> (failed \<longrightarrow> k \<notin> set (head w)))"

definition plain_url :: "string \<Rightarrow> string \<Rightarrow> string option" where
  "plain_url base uuid = (if base = [] then None else Some (base @ ''?site_uuid='' @ uuid))"

definition site_abc :: config where
  "site_abc = \<lparr>siteUuid = Some ''abc'', scriptSrc = None, useAdvancedInstallation = False, timeout = None\<rparr>"

definition page :: world where
  "page = fresh_world ''example.com'' plain_url"

text \<open>
  Every world that a page reaches has a window, and its timers and listeners belong to
  injections that exist.
\<close>

definition well_formed :: "world \<Rightarrow> bool" where
  "well_formed w =
     (has_window w \<and>
      (\<forall>t\<in>set (timers w). case fst t of InjTimeout j \<Rightarrow> j < length (injections w) | WaitInterval j \<Rightarrow> True) \<and>
      (\<forall>l\<in>set (ready_listeners w). case l of InjReady j \<Rightarrow> j < length (injections w) | WaitReady j \<Rightarrow> True))"

text \<open>
  Injection \<open>k\<close> waits for its timer, due at \<open>D\<close>; or it has been rejected by that
  timer, not before \<open>D\<close>.
\<close>

definition awaiting_timeout :: "world \<Rightarrow> nat \<Rightarrow> nat \<Rightarrow> int \<Rightarrow> bool" where
  "awaiting_timeout w k D T =
     (k < length (injections w) \<and> \<not> hasResolved (injections w ! k) \<and>
      inj_timeout (injections w ! k) = T \<and> inj_promise (injections w ! k) = Pending \<and>
      ld_promise (injections w ! k) = Pending \<and>
      (\<forall>t\<in>set (timers w). fst t = InjTimeout k \<longrightarrow> snd t = D) \<and>
      (InjTimeout k, D) \<in> set (timers w) \<and> now w \<le> D)"

definition timed_out :: "world \<Rightarrow> nat \<Rightarrow> nat \<Rightarrow> int \<Rightarrow> bool" where
  "timed_out w k D T =
     (settled_as w k (injections w ! k) \<and>
      inj_promise (injections w ! k) = Rejected (LoadTimeout T) \<and>
      ld_promise (injections w ! k) = Rejected (LoadTimeout T) \<and> D \<le> now w)"

text \<open>
  A call sequence that never calls \<^verbatim>\<open>resetBento\<close> while an injection is in flight.
\<close>

fun no_reset_in_flight :: "event list \<Rightarrow> world \<Rightarrow> bool" where
  "no_reset_in_flight [] w = True"
| "no_reset_in_flight (e # es) w =
     ((e = Reset \<longrightarrow> list_all hasResolved (injections w)) \<and> no_reset_in_flight es (step e w))"

text \<open>
  What holds of the loader's variables along such a sequence: an injection in flight is the
  last one made, it is the one \<^verbatim>\<open>loaderPromise\<close> names, \<^verbatim>\<open>isLoading\<close> is set and no
  error is stored; \<^verbatim>\<open>isLoading\<close> implies an injection in flight; a stored error comes
  with an empty \<^verbatim>\<open>loaderPromise\<close> and is the configuration error or the error of the
  last load; once a load has succeeded the binding is populated, no error is stored and
  nothing is in flight.
\<close>

definition lbook :: "world \<Rightarrow> bool" where
  "lbook w =
     ((\<forall>k. in_flight w k \<longrightarrow>
           loaderPromise w = Some k \<and> isLoading w \<and> loadError w = None \<and>
           ld_promise (injections w ! k) = Pending \<and> Suc k = length (injections w)) \<and>
      (isLoading w \<longrightarrow> (\<exists>k<length (injections w). \<not> hasResolved (injections w ! k))) \<and>
      (loadError w \<noteq> None \<longrightarrow> loaderPromise w = None) \<and>
      (\<forall>p. loaderPromise w = Some p \<longrightarrow>
           p < length (injections w) \<and> (hasResolved (injections w ! p) \<longrightarrow> bento w \<noteq> None)) \<and>
      (\<forall>e. loadError w = Some e \<longrightarrow>
           e = InvalidSiteUuid \<or> (injections w \<noteq> [] \<and> ld_promise (last (injections w)) = Rejected e)) \<and>
      (\<forall>k b. k < length (injections w) \<and> ld_promise (injections w ! k) = Resolved b \<longrightarrow>
           loadError w = None \<and> bento w \<noteq> None \<and> list_all hasResolved (injections w)))"

definition linv :: "world \<Rightarrow> bool" where
  "linv w = (well_formed w \<and> lbook w)"

text \<open>In every world a page reaches, a stored error comes with an empty \<^verbatim>\<open>loaderPromise\<close>.\<close>

definition failed_idle :: "world \<Rightarrow> bool" where
  "failed_idle w = (loadError w = None \<or> loaderPromise w = None)"

text \<open>
  How the consumer's chain ends, given how the wait settled: the generic dispatcher's chain
  always resolves with \<^verbatim>\<open>undefined\<close>; the \<^verbatim>\<open>spamCheck\<close> wrapper's promise follows the
  rejection of the wait and the outcome of \<^verbatim>\<open>api.spamCheck(email)\<close>.
\<close>

definition chain_end :: "wait \<Rightarrow> jsval pstate" where
  "chain_end x =
     (case w_promise x of
        Pending \<Rightarrow> Pending
      | Rejected e \<Rightarrow> (case w_cont x of Dispatch args \<Rightarrow> Resolved JUndefined | SpamCheck email \<Rightarrow> Rejected e)
      | Resolved api \<Rightarrow>
          (case w_cont x of
             Dispatch args \<Rightarrow> Resolved JUndefined
           | SpamCheck email \<Rightarrow>
               (case map_of api ''spamCheck'' of
                  Some (Fn (Returns v)) \<Rightarrow> Resolved v
                | Some (Fn (Throws s)) \<Rightarrow> Rejected (Thrown s)
                | _ \<Rightarrow> Rejected (NotAFunction ''spamCheck''))))"

text \<open>
  The failure of a generic call is on the console: the error its wait was rejected with, or
  the exception its method threw.
\<close>

definition failure_logged :: "log list \<Rightarrow> wait \<Rightarrow> bool" where
  "failure_logged con x =
     (case w_cont x of
        SpamCheck email \<Rightarrow> True
      | Dispatch args \<Rightarrow>
          (case w_promise x of
             Pending \<Rightarrow> True
           | Rejected e \<Rightarrow> LogMessage e \<in> set con
           | Resolved api \<Rightarrow>
               (case map_of api (w_method x) of
                  Some (Fn (Throws s)) \<Rightarrow> LogMessage (Thrown s) \<in> set con
                | _ \<Rightarrow> True)))"

definition swallowed :: "log list \<Rightarrow> wait \<Rightarrow> bool" where
  "swallowed con x = (w_out x = chain_end x \<and> failure_logged con x)"

definition winv :: "world \<Rightarrow> bool" where
  "winv w = list_all (swallowed (console w)) (waits w)"

text \<open>
  Load \<open>k\<close> is accounted for: it is in flight, or its promise is resolved, or its promise
  is rejected and its error is the stored one.
\<close>

definition tracked :: "world \<Rightarrow> nat \<Rightarrow> bool" where
  "tracked w k =
     (k < length (injections w) \<and>
      (in_flight w k \<or> (\<exists>b. ld_promise (injections w ! k) = Resolved b) \<or>
       (\<exists>e. ld_promise (injections w ! k) = Rejected e \<and> loadError w = Some e)))"

text \<open>Both facts together survive every listener and every timer.\<close>

definition accounted :: "nat \<Rightarrow> world \<Rightarrow> bool" where
  "accounted k w = (linv w \<and> tracked w k)"

text \<open>A stored error stays until the next \<^verbatim>\<open>init\<close> or \<^verbatim>\<open>resetBento\<close>.\<close>

definition holding :: "err \<Rightarrow> world \<Rightarrow> bool" where
  "holding e w = (linv w \<and> loadError w = Some e)"

text \<open>
  The outcome of \<^verbatim>\<open>window.bento.getEmail()\<close> when there is a window whose binding is
  populated and has a function under that key.
\<close>

definition binding_getEmail :: "world \<Rightarrow> outcome option" where
  "binding_getEmail w =
     (if has_window w
      then (case bento w of
              None \<Rightarrow> None
            | Some b \<Rightarrow> (case map_of b ''getEmail'' of Some (Fn oc) \<Rightarrow> Some oc | _ \<Rightarrow> None))
      else None)"

section \<open>Properties\<close>

lemma filter_removeAll_other: "\<not> P x \<Longrightarrow> filter P (removeAll x xs) = filter P xs"
  by (induction xs) auto

lemma inj_timer_not_wait [simp]: "(fst t \<noteq> WaitInterval k \<and> is_inj_timer t) = is_inj_timer t"
  by (auto simp: is_inj_timer_def)

lemma filter_inj_listener_wait [simp]:
  "filter is_inj_listener (removeAll (WaitReady k) ls) = filter is_inj_listener ls"
  by (simp add: filter_removeAll_other is_inj_listener_def)

lemma lv_logline [simp]: "loader_view (logline l w) = loader_view w"
  by (simp add: loader_view_def logline_def)

lemma lv_upd_wait [simp]: "loader_view (upd_wait k f w) = loader_view w"
  by (simp add: loader_view_def upd_wait_def)

lemma lv_calls [simp]: "loader_view (w\<lparr>calls := c\<rparr>) = loader_view w"
  by (simp add: loader_view_def)

lemma lv_cleanup_wait [simp]: "loader_view (cleanup_wait k w) = loader_view w"
  by (simp add: loader_view_def cleanup_wait_def)

lemma lv_on_settled [simp]: "loader_view (on_settled k st w) = loader_view w"
  by (simp add: on_settled_def Let_def split: cont.splits pstate.splits option.splits slot.splits outcome.splits)

lemma lv_settle_wait [simp]: "loader_view (settle_wait k st w) = loader_view w"
  by (simp add: settle_wait_def)

lemma loadError_upd_wait [simp]: "loadError (upd_wait k f w) = loadError w"
  and bento_upd_wait [simp]: "bento (upd_wait k f w) = bento w"
  by (simp_all add: upd_wait_def)

lemma lv_checkMethod [simp]: "loader_view (checkMethod k w) = loader_view w"
  by (simp add: checkMethod_def Let_def split: option.splits)

lemma lv_wait_handleReady [simp]: "loader_view (wait_handleReady k w) = loader_view w"
  by (simp add: wait_handleReady_def)

lemma lv_waitForMethod [simp]: "loader_view (snd (waitForMethod m c w)) = loader_view w"
  by (simp add: waitForMethod_def Let_def split: option.splits)
     (simp add: loader_view_def is_inj_listener_def is_inj_timer_def)

lemma lv_invoke [simp]: "loader_view (snd (invoke p args w)) = loader_view w"
  by (simp add: invoke_def getEmail_fn_def spamCheck_fn_def generic_fn_def split_beta Let_def
      split: handler.splits option.splits slot.splits outcome.splits)

lemma nth_update_field:
  "(\<And>r. g (f r) = g r) \<Longrightarrow> g (xs[k := f (xs ! k)] ! j) = g (xs ! j)"
  by (cases "j = k"; cases "k < length xs") (auto simp: list_update_beyond)

lemma logline_fields [simp]:
  "injections (logline l w) = injections w" "ready_listeners (logline l w) = ready_listeners w"
  "timers (logline l w) = timers w" "head (logline l w) = head w" "bento (logline l w) = bento w"
  "waits (logline l w) = waits w" "calls (logline l w) = calls w" "now (logline l w) = now w"
  "loaderPromise (logline l w) = loaderPromise w" "loadError (logline l w) = loadError w"
  "isLoading (logline l w) = isLoading w" "has_window (logline l w) = has_window w"
  "bento_dollar (logline l w) = bento_dollar w" "console (logline l w) = console w @ [l]"
  by (simp_all add: logline_def)

lemma upd_inj_fields [simp]:
  "injections (upd_inj k f w) = (injections w)[k := f (injections w ! k)]"
  "ready_listeners (upd_inj k f w) = ready_listeners w"
  "timers (upd_inj k f w) = timers w" "head (upd_inj k f w) = head w" "bento (upd_inj k f w) = bento w"
  "waits (upd_inj k f w) = waits w" "calls (upd_inj k f w) = calls w" "now (upd_inj k f w) = now w"
  "loaderPromise (upd_inj k f w) = loaderPromise w" "loadError (upd_inj k f w) = loadError w"
  "isLoading (upd_inj k f w) = isLoading w" "has_window (upd_inj k f w) = has_window w"
  "bento_dollar (upd_inj k f w) = bento_dollar w" "console (upd_inj k f w) = console w"
  by (simp_all add: upd_inj_def)

lemma cleanup_inj_fields [simp]:
  "injections (cleanup_inj k b w) = injections w"
  "ready_listeners (cleanup_inj k b w) = removeAll (InjReady k) (ready_listeners w)"
  "timers (cleanup_inj k b w) = filter (\<lambda>t. fst t \<noteq> InjTimeout k) (timers w)"
  "head (cleanup_inj k b w) = (if b then removeAll k (head w) else head w)"
  "bento (cleanup_inj k b w) = bento w"
  "waits (cleanup_inj k b w) = waits w" "calls (cleanup_inj k b w) = calls w" "now (cleanup_inj k b w) = now w"
  "loaderPromise (cleanup_inj k b w) = loaderPromise w" "loadError (cleanup_inj k b w) = loadError w"
  "isLoading (cleanup_inj k b w) = isLoading w" "has_window (cleanup_inj k b w) = has_window w"
  "bento_dollar (cleanup_inj k b w) = bento_dollar w" "console (cleanup_inj k b w) = console w"
  by (simp_all add: cleanup_inj_def)

lemma load_catch_fields [simp]:
  "injections (load_catch k e w) = (injections w)[k := (injections w ! k)\<lparr>ld_promise := Rejected e\<rparr>]"
  "ready_listeners (load_catch k e w) = ready_listeners w"
  "timers (load_catch k e w) = timers w" "head (load_catch k e w) = head w" "bento (load_catch k e w) = bento w"
  "waits (load_catch k e w) = waits w" "calls (load_catch k e w) = calls w" "now (load_catch k e w) = now w"
  "loaderPromise (load_catch k e w) = None" "loadError (load_catch k e w) = Some e"
  "isLoading (load_catch k e w) = False" "has_window (load_catch k e w) = has_window w"
  "bento_dollar (load_catch k e w) = bento_dollar w"
  "console (load_catch k e w) = console w @ [LogFailedToLoad e]"
  by (simp_all add: load_catch_def)

lemma call_dollar_fields [simp]:
  "injections (fst (call_dollar w)) = injections w"
  "ready_listeners (fst (call_dollar w)) = ready_listeners w"
  "timers (fst (call_dollar w)) = timers w" "head (fst (call_dollar w)) = head w"
  "bento (fst (call_dollar w)) = bento w"
  "waits (fst (call_dollar w)) = waits w" "now (fst (call_dollar w)) = now w"
  "loaderPromise (fst (call_dollar w)) = loaderPromise w" "loadError (fst (call_dollar w)) = loadError w"
  "isLoading (fst (call_dollar w)) = isLoading w" "has_window (fst (call_dollar w)) = has_window w"
  "bento_dollar (fst (call_dollar w)) = bento_dollar w" "console (fst (call_dollar w)) = console w"
  by (simp_all add: call_dollar_def view_callback_def split: option.splits dollar.splits slot.splits)

lemma call_dollar_snd_frame:
  "bento w' = bento w \<Longrightarrow> bento_dollar w' = bento_dollar w \<Longrightarrow> snd (call_dollar w') = snd (call_dollar w)"
  by (simp add: call_dollar_def view_callback_def split: option.splits dollar.splits slot.splits)

lemma load_then_fields [simp]:
  "injections (load_then k api w) = (injections w)[k := (injections w ! k)\<lparr>ld_promise := then_result k api w\<rparr>]"
  "ready_listeners (load_then k api w) = ready_listeners w"
  "timers (load_then k api w) = timers w" "head (load_then k api w) = head w"
  "bento (load_then k api w) = bento w"
  "waits (load_then k api w) = waits w" "now (load_then k api w) = now w"
  "isLoading (load_then k api w) = False" "has_window (load_then k api w) = has_window w"
  "bento_dollar (load_then k api w) = bento_dollar w"
  "loadError (load_then k api w) = (case then_result k api w of Rejected e \<Rightarrow> Some e | _ \<Rightarrow> None)"
  "loaderPromise (load_then k api w) = (case then_result k api w of Rejected e \<Rightarrow> None | _ \<Rightarrow> loaderPromise w)"
  by (simp_all add: load_then_def then_result_def Let_def split_beta
       call_dollar_snd_frame [of "w\<lparr>isLoading := False, loadError := None\<rparr>" w]
       split: option.splits)

lemma then_result_frame:
  "bento w' = bento w \<Longrightarrow> bento_dollar w' = bento_dollar w \<Longrightarrow>
   ld_advanced (injections w' ! k) = ld_advanced (injections w ! k) \<Longrightarrow>
   then_result k api w' = then_result k api w"
  by (simp add: then_result_def call_dollar_snd_frame [of w' w])

lemma handleError_settled [simp]: "hasResolved (injections w ! k) \<Longrightarrow> handleError k e w = w"
  by (simp add: handleError_def)

lemma handleSuccess_settled [simp]: "hasResolved (injections w ! k) \<Longrightarrow> handleSuccess k api w = w"
  by (simp add: handleSuccess_def)

lemma handleError_fields:
  assumes "\<not> hasResolved (injections w ! k)"
  shows
  "injections (handleError k e w) =
     (injections w)[k := (injections w ! k)\<lparr>hasResolved := True, inj_promise := Rejected e, ld_promise := Rejected e\<rparr>]"
  "ready_listeners (handleError k e w) = removeAll (InjReady k) (ready_listeners w)"
  "timers (handleError k e w) = filter (\<lambda>t. fst t \<noteq> InjTimeout k) (timers w)"
  "head (handleError k e w) = removeAll k (head w)"
  "bento (handleError k e w) = bento w" "waits (handleError k e w) = waits w"
  "calls (handleError k e w) = calls w" "now (handleError k e w) = now w"
  "loaderPromise (handleError k e w) = None" "loadError (handleError k e w) = Some e"
  "isLoading (handleError k e w) = False" "has_window (handleError k e w) = has_window w"
  "bento_dollar (handleError k e w) = bento_dollar w"
  "console (handleError k e w) = console w @ [LogFailedToLoad e]"
  using assms
  by (cases "k < length (injections w)"; simp add: handleError_def list_update_beyond)+

lemma handleSuccess_fields:
  assumes "\<not> hasResolved (injections w ! k)"
  shows
  "injections (handleSuccess k api w) =
     (injections w)[k := (injections w ! k)\<lparr>hasResolved := True, inj_promise := Resolved api,
                                            ld_promise := then_result k api w\<rparr>]"
  "ready_listeners (handleSuccess k api w) = removeAll (InjReady k) (ready_listeners w)"
  "timers (handleSuccess k api w) = filter (\<lambda>t. fst t \<noteq> InjTimeout k) (timers w)"
  "head (handleSuccess k api w) = head w"
  "bento (handleSuccess k api w) = bento w" "waits (handleSuccess k api w) = waits w"
  "now (handleSuccess k api w) = now w"
  "loaderPromise (handleSuccess k api w) = (case then_result k api w of Rejected e \<Rightarrow> None | _ \<Rightarrow> loaderPromise w)"
  "loadError (handleSuccess k api w) = (case then_result k api w of Rejected e \<Rightarrow> Some e | _ \<Rightarrow> None)"
  "isLoading (handleSuccess k api w) = False" "has_window (handleSuccess k api w) = has_window w"
  "bento_dollar (handleSuccess k api w) = bento_dollar w"

proof -
  let ?w2 = "upd_inj k (\<lambda>r. r\<lparr>inj_promise := Resolved api\<rparr>)
               (cleanup_inj k False (upd_inj k (\<lambda>r. r\<lparr>hasResolved := True\<rparr>) w))"
  have tr: "then_result k api ?w2 = then_result k api w"
    by (rule then_result_frame)
       (cases "k < length (injections w)"; simp add: list_update_beyond)+
  have hs: "handleSuccess k api w = load_then k api ?w2"
    using assms by (simp add: handleSuccess_def)
  show "injections (handleSuccess k api w) =
     (injections w)[k := (injections w ! k)\<lparr>hasResolved := True, inj_promise := Resolved api,
                                            ld_promise := then_result k api w\<rparr>]"
    unfolding hs by (cases "k < length (injections w)"; simp add: tr list_update_beyond)
  show "ready_listeners (handleSuccess k api w) = removeAll (InjReady k) (ready_listeners w)"
    "timers (handleSuccess k api w) = filter (\<lambda>t. fst t \<noteq> InjTimeout k) (timers w)"
    "head (handleSuccess k api w) = head w"
    "bento (handleSuccess k api w) = bento w" "waits (handleSuccess k api w) = waits w"
    "now (handleSuccess k api w) = now w"
    "loaderPromise (handleSuccess k api w) = (case then_result k api w of Rejected e \<Rightarrow> None | _ \<Rightarrow> loaderPromise w)"
    "loadError (handleSuccess k api w) = (case then_result k api w of Rejected e \<Rightarrow> Some e | _ \<Rightarrow> None)"
    "isLoading (handleSuccess k api w) = False" "has_window (handleSuccess k api w) = has_window w"
    "bento_dollar (handleSuccess k api w) = bento_dollar w"
    unfolding hs by (simp_all add: tr split: pstate.splits)

qed

subsection \<open>A settled injection stays as it is\<close>

lemma in_set_inj_listener:
  "InjReady k \<in> set ls \<longleftrightarrow> InjReady k \<in> set (filter is_inj_listener ls)"
  by (simp add: is_inj_listener_def)

lemma in_set_inj_timer:
  "InjTimeout k \<in> fst ` set ts \<longleftrightarrow> InjTimeout k \<in> fst ` set (filter is_inj_timer ts)"
  by (force simp: is_inj_timer_def)

lemma torn_down_view: "loader_view w' = loader_view w \<Longrightarrow> torn_down w' k = torn_down w k"
  unfolding torn_down_def in_set_inj_listener [of k "ready_listeners w'"] in_set_inj_listener [of k "ready_listeners w"]
    in_set_inj_timer [of k "timers w'"] in_set_inj_timer [of k "timers w"]
  by (simp add: loader_view_def)

lemma settled_as_view: "loader_view w' = loader_view w \<Longrightarrow> settled_as w' k r = settled_as w k r"
  by (simp add: settled_as_def torn_down_view [of w' w]) (simp add: loader_view_def)

lemma torn_down_removeAll:
  "InjReady k \<notin> set ls \<Longrightarrow> InjReady k \<notin> set (removeAll l ls)"
  by simp

lemma settled_as_handleError: "settled_as w k r \<Longrightarrow> settled_as (handleError j e w) k r"

proof (cases "hasResolved (injections w ! j)")
  case True then show "settled_as w k r \<Longrightarrow> ?thesis" by simp

next
  case False
  assume s: "settled_as w k r"
  with False have "j \<noteq> k" by (auto simp: settled_as_def)
  with s show ?thesis
    by (auto simp: settled_as_def torn_down_def handleError_fields [OF False])

qed

lemma settled_as_handleSuccess: "settled_as w k r \<Longrightarrow> settled_as (handleSuccess j api w) k r"

proof (cases "hasResolved (injections w ! j)")
  case True then show "settled_as w k r \<Longrightarrow> ?thesis" by simp

next
  case False
  assume s: "settled_as w k r"
  with False have "j \<noteq> k" by (auto simp: settled_as_def)
  with s show ?thesis
    by (auto simp: settled_as_def torn_down_def handleSuccess_fields [OF False])

qed

lemma resetBento_fields [simp]:
  "injections (resetBento w) = injections w" "ready_listeners (resetBento w) = ready_listeners w"
  "timers (resetBento w) = timers w" "head (resetBento w) = head w" "bento (resetBento w) = bento w"
  "waits (resetBento w) = waits w" "calls (resetBento w) = calls w" "now (resetBento w) = now w"
  "loaderPromise (resetBento w) = None" "loadError (resetBento w) = None"
  "isLoading (resetBento w) = False" "has_window (resetBento w) = has_window w"
  "bento_dollar (resetBento w) = bento_dollar w" "console (resetBento w) = console w"
  "hostname (resetBento w) = hostname w" "url_api (resetBento w) = url_api w"
  by (simp_all add: resetBento_def)

lemma implicit_reset_fields [simp]:
  "injections (implicit_reset w) = injections w" "ready_listeners (implicit_reset w) = ready_listeners w"
  "timers (implicit_reset w) = timers w" "head (implicit_reset w) = head w" "bento (implicit_reset w) = bento w"
  "waits (implicit_reset w) = waits w" "calls (implicit_reset w) = calls w" "now (implicit_reset w) = now w"
  "loadError (implicit_reset w) = None"
  "has_window (implicit_reset w) = has_window w"
  "bento_dollar (implicit_reset w) = bento_dollar w" "console (implicit_reset w) = console w"
  "hostname (implicit_reset w) = hostname w" "url_api (implicit_reset w) = url_api w"
  by (simp_all add: implicit_reset_def)

lemma implicit_reset_idle:
  "loaderPromise w = None \<Longrightarrow> loaderPromise (implicit_reset w) = None"
  "loadError w = None \<Longrightarrow> implicit_reset w = w"
  "loadError w \<noteq> None \<Longrightarrow> isLoading (implicit_reset w) = False"
  "loadError w \<noteq> None \<Longrightarrow> loaderPromise (implicit_reset w) = None"
  by (simp_all add: implicit_reset_def)

lemma dev_log_fields [simp]:
  "injections (dev_log cfg w) = injections w" "ready_listeners (dev_log cfg w) = ready_listeners w"
  "timers (dev_log cfg w) = timers w" "head (dev_log cfg w) = head w" "bento (dev_log cfg w) = bento w"
  "waits (dev_log cfg w) = waits w" "calls (dev_log cfg w) = calls w" "now (dev_log cfg w) = now w"
  "loaderPromise (dev_log cfg w) = loaderPromise w" "loadError (dev_log cfg w) = loadError w"
  "isLoading (dev_log cfg w) = isLoading w" "has_window (dev_log cfg w) = has_window w"
  "bento_dollar (dev_log cfg w) = bento_dollar w"
  by (simp_all add: dev_log_def)

lemma start_load_fields:
  assumes "bento w = None"
  shows
  "fst (start_load cfg u w) = Stored (length (injections w))"
  "injections (snd (start_load cfg u w)) =
     injections w @ [new_injection u (effective_timeout cfg) (useAdvancedInstallation cfg)]"
  "ready_listeners (snd (start_load cfg u w)) = ready_listeners w @ [InjReady (length (injections w))]"
  "timers (snd (start_load cfg u w)) =
     timers w @ [(InjTimeout (length (injections w)), now w + setTimeout_delay (effective_timeout cfg))]"
  "head (snd (start_load cfg u w)) = head w @ [length (injections w)]"
  "bento (snd (start_load cfg u w)) = None" "waits (snd (start_load cfg u w)) = waits w"
  "calls (snd (start_load cfg u w)) = calls w" "now (snd (start_load cfg u w)) = now w"
  "loaderPromise (snd (start_load cfg u w)) = Some (length (injections w))"
  "loadError (snd (start_load cfg u w)) = loadError w"
  "isLoading (snd (start_load cfg u w)) = True" "has_window (snd (start_load cfg u w)) = has_window w"
  "bento_dollar (snd (start_load cfg u w)) = bento_dollar w"
  "console (snd (start_load cfg u w)) = console w"
  using assms
  by (simp_all add: start_load_def injectScript_def Let_def chain_reactions_def new_injection_def)

text \<open>The four ways through \<^verbatim>\<open>loadBento\<close>.\<close>

lemma loadBento_cases [consumes 0, case_names same invalid badurl start]:
  assumes "\<And>r. loadBento cfg w = (r, w) \<Longrightarrow>
             \<not> has_window w \<or> bento w \<noteq> None \<or> loaderPromise w \<noteq> None \<Longrightarrow> P"
    and "has_window w \<Longrightarrow> bento w = None \<Longrightarrow> loaderPromise w = None \<Longrightarrow>
         invalid_siteUuid (siteUuid cfg) \<Longrightarrow>
         loadBento cfg w = (Fresh (Rejected InvalidSiteUuid), (implicit_reset w)\<lparr>loadError := Some InvalidSiteUuid\<rparr>) \<Longrightarrow> P"
    and "\<And>e. has_window w \<Longrightarrow> bento w = None \<Longrightarrow> loaderPromise w = None \<Longrightarrow>
         \<not> invalid_siteUuid (siteUuid cfg) \<Longrightarrow>
         script_url cfg (dev_log cfg (implicit_reset w)) = None \<Longrightarrow>
         loadBento cfg w = (Fresh (Rejected e), dev_log cfg (implicit_reset w)) \<Longrightarrow> P"
    and "\<And>u. has_window w \<Longrightarrow> bento w = None \<Longrightarrow> loaderPromise w = None \<Longrightarrow>
         \<not> invalid_siteUuid (siteUuid cfg) \<Longrightarrow>
         script_url cfg (dev_log cfg (implicit_reset w)) = Some u \<Longrightarrow>
         loadBento cfg w = start_load cfg u (dev_log cfg (implicit_reset w)) \<Longrightarrow> P"
  shows P

proof (cases "\<not> has_window w \<or> bento w \<noteq> None \<or> loaderPromise w \<noteq> None")
  case True
  then have "\<exists>r. loadBento cfg w = (r, w)"
    by (auto simp: loadBento_def split: option.splits)
  with True assms(1) show P by blast

next
  case False
  then have h: "has_window w" "bento w = None" "loaderPromise w = None" by auto
  show P
  proof (cases "invalid_siteUuid (siteUuid cfg)")
    case True
    with h assms(2) show P by (simp add: loadBento_def)
  next
    case inv: False
    show P
    proof (cases "script_url cfg (dev_log cfg (implicit_reset w))")
      case None
      with h inv assms(3) show P by (simp add: loadBento_def Let_def)
    next
      case (Some u)
      with h inv assms(4) show P by (simp add: loadBento_def Let_def)
    qed
  qed

qed

lemma settled_as_loadBento: "settled_as w k r \<Longrightarrow> settled_as (snd (loadBento cfg w)) k r"

proof (cases cfg w rule: loadBento_cases)
  case (same res) then show "settled_as w k r \<Longrightarrow> ?thesis" by simp

next
  case invalid then show "settled_as w k r \<Longrightarrow> ?thesis" by (simp add: settled_as_def torn_down_def)

next
  case (badurl e) then show "settled_as w k r \<Longrightarrow> ?thesis" by (simp add: settled_as_def torn_down_def)

next
  case (start u)
  assume s: "settled_as w k r"
  have b: "bento (dev_log cfg (implicit_reset w)) = None" using start by simp
  show ?thesis using s
    by (auto simp: start start_load_fields [OF b] settled_as_def torn_down_def nth_append)

qed

lemma next_timer_None [simp]: "next_timer ts = None \<longleftrightarrow> ts = []"
  by (induction ts) (auto split: option.splits)

lemma next_timer_Some:
  "next_timer ts = Some t \<Longrightarrow> t \<in> set ts \<and> (\<forall>u\<in>set ts. snd t \<le> snd u)"

proof (induction ts arbitrary: t)
  case Nil
  then show ?case by simp

next
  case (Cons a ts)
  show ?case
  proof (cases "next_timer ts")
    case None
    with Cons.prems show ?thesis by simp
  next
    case (Some u)
    from Cons.IH [OF Some] have u: "u \<in> set ts" "\<forall>v\<in>set ts. snd u \<le> snd v" by auto
    from Cons.prems Some have "t = (if snd a \<le> snd u then a else u)" by (simp split: if_splits)
    with u show ?thesis by (auto intro: order_trans)
  qed

qed

lemma elapse_cases [consumes 0, case_names idle fires]:
  assumes "elapse dt w = w\<lparr>now := now w + dt\<rparr> \<Longrightarrow> (\<forall>t\<in>set (timers w). now w + dt < snd t) \<Longrightarrow> P"
    and "\<And>t. t \<in> set (timers w) \<Longrightarrow> snd t \<le> now w + dt \<Longrightarrow> (\<forall>u\<in>set (timers w). snd t \<le> snd u) \<Longrightarrow>
           elapse dt w = fire t (w\<lparr>now := max (now w) (snd t)\<rparr>) \<Longrightarrow> P"
  shows P

proof (cases "next_timer (timers w)")
  case None
  then show P using assms(1) by (simp add: elapse_def)

next
  case (Some t)
  note nt = next_timer_Some [OF Some]
  show P
  proof (cases "snd t \<le> now w + dt")
    case True
    with Some have "elapse dt w = fire t (w\<lparr>now := max (now w) (snd t)\<rparr>)"
      by (simp add: elapse_def)
    with nt True assms(2) show P by blast
  next
    case False
    with nt have "\<forall>u\<in>set (timers w). now w + dt < snd u" by fastforce
    with Some False assms(1) show P by (simp add: elapse_def)
  qed

qed

lemma fold_invariant:
  "(\<And>x s. I s \<Longrightarrow> I (f x s)) \<Longrightarrow> I s \<Longrightarrow> I (fold f xs s)"
  by (induction xs arbitrary: s) auto

lemma dispatch_ready_invariant:
  "(\<And>l s. I s \<Longrightarrow> I (run_listener l s)) \<Longrightarrow> I w \<Longrightarrow> I (dispatch_ready w)"
  unfolding dispatch_ready_def by (rule fold_invariant)

lemma step_invariant:
  assumes "I w"
    and "\<And>cfg s. I s \<Longrightarrow> I (snd (loadBento cfg s))"
    and "\<And>s. I s \<Longrightarrow> I (resetBento s)"
    and "\<And>p a s. I s \<Longrightarrow> I (snd (invoke p a s))"
    and "\<And>b s. I s \<Longrightarrow> I (s\<lparr>bento := Some b\<rparr>)"
    and "\<And>d s. I s \<Longrightarrow> I (s\<lparr>bento_dollar := Some d\<rparr>)"
    and "\<And>l s. I s \<Longrightarrow> I (run_listener l s)"
    and "\<And>k s. I s \<Longrightarrow> I (script_onerror k s)"
    and "\<And>dt s. I s \<Longrightarrow> I (elapse dt s)"
  shows "I (step e w)"
  using assms by (cases e) (simp_all add: step_def dispatch_ready_invariant)

lemma run_Nil [simp]: "run [] w = w"
  and run_Cons [simp]: "run (e # es) w = run es (step e w)"
  and run_append [simp]: "run (es @ es') w = run es' (run es w)"
  by (simp_all add: run_def)

lemma run_invariant:
  "(\<And>e s. I s \<Longrightarrow> I (step e s)) \<Longrightarrow> I w \<Longrightarrow> I (run es w)"
  unfolding run_def by (rule fold_invariant)

lemma lv_timers_wait:
  "fst t = WaitInterval k \<Longrightarrow>
   loader_view (w\<lparr>timers := map (\<lambda>u. if u = t then (fst t, snd t + 100) else u) (timers w)\<rparr>) = loader_view w"

proof -
  assume t: "fst t = WaitInterval k"
  have "filter is_inj_timer (map (\<lambda>u. if u = t then (fst t, snd t + 100) else u) ts) = filter is_inj_timer ts" for ts
    using t by (induction ts) (auto simp: is_inj_timer_def)
  then show ?thesis by (simp add: loader_view_def)

qed

lemma lv_fire_wait: "fst t = WaitInterval k \<Longrightarrow> loader_view (fire t w) = loader_view w"
  by (simp add: fire_def lv_timers_wait)

lemma lv_run_listener_wait: "loader_view (run_listener (WaitReady k) w) = loader_view w"
  by (simp add: run_listener_def)

lemma settled_as_now [simp]: "settled_as (w\<lparr>now := n\<rparr>) k r = settled_as w k r"
  by (simp add: settled_as_def torn_down_def)

lemma settled_as_run_listener: "settled_as w k r \<Longrightarrow> settled_as (run_listener l w) k r"
  by (cases l)
     (auto simp: run_listener_def inj_handleReady_def settled_as_handleError settled_as_handleSuccess
        settled_as_view [OF lv_wait_handleReady] split: option.splits)

lemma settled_as_script_onerror: "settled_as w k r \<Longrightarrow> settled_as (script_onerror j w) k r"
  unfolding script_onerror_def
  by (rule settled_as_handleError) (simp add: settled_as_view [OF lv_logline])

lemma settled_as_fire: "settled_as w k r \<Longrightarrow> settled_as (fire t w) k r"

proof (cases "fst t")
  case (InjTimeout j)
  assume "settled_as w k r"
  then have "settled_as (w\<lparr>timers := removeAll t (timers w)\<rparr>) k r"
    by (auto simp: settled_as_def torn_down_def)
  then show ?thesis
    by (simp add: fire_def InjTimeout inj_timeout_cb_def settled_as_handleError)

next
  case (WaitInterval j)
  then show "settled_as w k r \<Longrightarrow> ?thesis"
    by (simp add: settled_as_view [OF lv_fire_wait])

qed

lemma settled_as_elapse: "settled_as w k r \<Longrightarrow> settled_as (elapse dt w) k r"
  by (rule elapse_cases [where dt = dt and w = w]) (simp_all add: settled_as_fire)

lemma settled_as_step: "settled_as w k r \<Longrightarrow> settled_as (step e w) k r"

proof (rule step_invariant [where I = "\<lambda>s. settled_as s k r"])
  fix b s show "settled_as s k r \<Longrightarrow> settled_as (s\<lparr>bento := Some b\<rparr>) k r"
    by (simp add: settled_as_def torn_down_def)

next
  fix d s show "settled_as s k r \<Longrightarrow> settled_as (s\<lparr>bento_dollar := Some d\<rparr>) k r"
    by (simp add: settled_as_def torn_down_def)

next
  fix s show "settled_as s k r \<Longrightarrow> settled_as (resetBento s) k r"
    by (simp add: settled_as_def torn_down_def)

qed (simp_all add: settled_as_loadBento settled_as_view [OF lv_invoke] settled_as_run_listener
       settled_as_script_onerror settled_as_elapse)

lemma settled_as_run: "settled_as w k r \<Longrightarrow> settled_as (run es w) k r"
  by (rule run_invariant [where I = "\<lambda>s. settled_as s k r"]) (simp_all add: settled_as_step)

lemma handler_bento [simp]:
  "bento (handleError k e w) = bento w" "bento (handleSuccess k api w) = bento w"
  by (cases "hasResolved (injections w ! k)"; simp add: handleError_fields handleSuccess_fields)+

lemma bento_run_listener [simp]: "bento (run_listener l w) = bento w"

proof -
  have "loader_view (wait_handleReady k w) = loader_view w" for k by simp
  then have "bento (wait_handleReady k w) = bento w" for k by (simp add: loader_view_def)
  then show ?thesis
    by (simp add: run_listener_def inj_handleReady_def split: listener.splits option.splits)

qed

lemma bento_dispatch_ready [simp]: "bento (dispatch_ready w) = bento w"
  by (rule dispatch_ready_invariant [where I = "\<lambda>s. bento s = bento w"]) simp_all

lemma head_run_listener_success:
  "bento w = Some b \<Longrightarrow> head (run_listener l w) = head w"

proof -
  have "loader_view (wait_handleReady k w) = loader_view w" for k by simp
  then have h: "head (wait_handleReady k w) = head w" for k by (simp add: loader_view_def)
  have "head (handleSuccess k b w) = head w" for k
    by (cases "hasResolved (injections w ! k)") (simp_all add: handleSuccess_fields)
  with h show "bento w = Some b \<Longrightarrow> ?thesis"
    by (simp add: run_listener_def inj_handleReady_def split: listener.splits)

qed

lemma head_dispatch_ready_success:
  "bento w = Some b \<Longrightarrow> head (dispatch_ready w) = head w"
  by (rule conjunct2 [OF dispatch_ready_invariant [where I = "\<lambda>s. bento s = Some b \<and> head s = head w"]])
     (simp_all add: head_run_listener_success)

lemma head_run_listener_subset: "set (head (run_listener l w)) \<subseteq> set (head w)"

proof -
  have "loader_view (wait_handleReady k w) = loader_view w" for k by simp
  then have h: "head (wait_handleReady k w) = head w" for k by (simp add: loader_view_def)
  have s: "set (head (handleSuccess k b w)) \<subseteq> set (head w)" for k b
    by (cases "hasResolved (injections w ! k)") (simp_all add: handleSuccess_fields)
  have e: "set (head (handleError k e w)) \<subseteq> set (head w)" for k e
    by (cases "hasResolved (injections w ! k)") (auto simp: handleError_fields)
  from h s e show ?thesis
    by (simp add: run_listener_def inj_handleReady_def split: listener.splits option.splits)

qed

lemma ready_done_settled:
  "ready_done w k st f \<longleftrightarrow>
     settled_as w k (injections w ! k) \<and> inj_promise (injections w ! k) = st \<and> (f \<longrightarrow> k \<notin> set (head w))"
  by (auto simp: ready_done_def settled_as_def)

lemma ready_done_run_listener:
  assumes "ready_done w k st f"
  shows "ready_done (run_listener l w) k st f"

proof -
  from assms have s: "settled_as w k (injections w ! k)" and p: "inj_promise (injections w ! k) = st"
    and h: "f \<longrightarrow> k \<notin> set (head w)" by (simp_all add: ready_done_settled)
  from s have s': "settled_as (run_listener l w) k (injections w ! k)" by (rule settled_as_run_listener)
  then have eq: "injections (run_listener l w) ! k = injections w ! k" by (simp add: settled_as_def)
  from h head_run_listener_subset [of l w] have "f \<longrightarrow> k \<notin> set (head (run_listener l w))" by auto
  with s' p eq show ?thesis by (simp add: ready_done_settled)

qed

lemma inj_handleReady_in_flight:
  assumes "in_flight w k"
  shows "ready_done (inj_handleReady k w) k (ready_outcome w) (bento w = None)"

proof -
  from assms have k: "k < length (injections w)" and nr: "\<not> hasResolved (injections w ! k)"
    by (simp_all add: in_flight_def)
  show ?thesis
    using k
    by (auto simp: ready_done_def inj_handleReady_def ready_outcome_def torn_down_def
          handleSuccess_fields [OF nr] handleError_fields [OF nr] split: option.splits)

qed

lemma awaiting_ready_view:
  "loader_view w' = loader_view w \<Longrightarrow> awaiting_ready w' k = awaiting_ready w k"
  unfolding awaiting_ready_def in_flight_def
    in_set_inj_listener [of k "ready_listeners w'"] in_set_inj_listener [of k "ready_listeners w"]
  by (simp add: loader_view_def)

lemma awaiting_ready_other:
  assumes "awaiting_ready w k" "l \<noteq> InjReady k"
  shows "awaiting_ready (run_listener l w) k"

proof (cases l)
  case (WaitReady j)
  with assms(1) show ?thesis
    by (simp add: run_listener_def awaiting_ready_view [OF lv_wait_handleReady])

next
  case (InjReady j)
  with assms(2) have jk: "j \<noteq> k" by simp
  show ?thesis
  proof (cases "hasResolved (injections w ! j)")
    case True
    with assms(1) InjReady show ?thesis
      by (simp add: run_listener_def inj_handleReady_def split: option.splits)
  next
    case False
    with assms(1) InjReady jk show ?thesis
      by (auto simp: run_listener_def inj_handleReady_def awaiting_ready_def in_flight_def
            handleSuccess_fields [OF False] handleError_fields [OF False] split: option.splits)
  qed

qed

lemma fold_ready:
  assumes "bento s = bento w"
    and "(awaiting_ready s k \<and> InjReady k \<in> set ls) \<or> ready_done s k (ready_outcome w) (bento w = None)"
  shows "ready_done (fold run_listener ls s) k (ready_outcome w) (bento w = None)"
  using assms

proof (induction ls arbitrary: s)
  case Nil
  then show ?case by simp

next
  case (Cons l ls)
  have b: "bento (run_listener l s) = bento w" using Cons.prems(1) by simp
  have "(awaiting_ready (run_listener l s) k \<and> InjReady k \<in> set ls)
        \<or> ready_done (run_listener l s) k (ready_outcome w) (bento w = None)"
  proof (cases "ready_done s k (ready_outcome w) (bento w = None)")
    case True
    then show ?thesis by (simp add: ready_done_run_listener)
  next
    case False
    with Cons.prems(2) have a: "awaiting_ready s k" and m: "InjReady k \<in> set (l # ls)" by auto
    show ?thesis
    proof (cases "l = InjReady k")
      case True
      from a have "in_flight s k" by (simp add: awaiting_ready_def)
      from inj_handleReady_in_flight [OF this] a True Cons.prems(1) show ?thesis
        by (simp add: run_listener_def awaiting_ready_def ready_outcome_def)
    next
      case False
      with a m show ?thesis by (auto simp: awaiting_ready_other)
    qed
  qed
  from Cons.IH [OF b this] show ?case by simp

qed

lemma dispatch_ready_in_flight:
  "awaiting_ready w k \<Longrightarrow> ready_done (dispatch_ready w) k (ready_outcome w) (bento w = None)"
  unfolding dispatch_ready_def by (rule fold_ready) (auto simp: awaiting_ready_def)

lemma script_onerror_in_flight:
  assumes "in_flight w k"
  shows "ready_done (script_onerror k w) k (Rejected (ScriptLoadError (inj_src (injections w ! k)))) True"

proof -
  from assms have k: "k < length (injections w)" and nr: "\<not> hasResolved (injections (logline (LogScriptError k) w) ! k)"
    by (simp_all add: in_flight_def)
  show ?thesis using k
    by (auto simp: ready_done_def script_onerror_def torn_down_def handleError_fields [OF nr])

qed

lemma elapse_timeout_in_flight:
  assumes "in_flight w k" "next_timer (timers w) = Some (InjTimeout k, d)" "d \<le> now w + dt"
  shows "ready_done (elapse dt w) k (Rejected (LoadTimeout (inj_timeout (injections w ! k)))) True"

proof -
  let ?w1 = "w\<lparr>now := max (now w) d, timers := removeAll (InjTimeout k, d) (timers w)\<rparr>"
  from assms have e: "elapse dt w = handleError k (LoadTimeout (inj_timeout (injections w ! k))) ?w1"
    by (simp add: elapse_def fire_def inj_timeout_cb_def)
  from assms have k: "k < length (injections w)" and nr: "\<not> hasResolved (injections ?w1 ! k)"
    by (simp_all add: in_flight_def)
  show ?thesis unfolding e using k
    by (auto simp: ready_done_def torn_down_def handleError_fields [OF nr])

qed

lemmas model_defs =
  run_def step_def loadBento_def implicit_reset_def dev_log_def resetBento_def start_load_def
  injectScript_def setTimeout_delay_def chain_reactions_def script_url_def effective_timeout_def invalid_siteUuid_def
  load_then_def load_catch_def call_dollar_def view_callback_def cleanup_inj_def handleSuccess_def
  handleError_def script_onerror_def inj_handleReady_def inj_timeout_cb_def upd_inj_def upd_wait_def
  logline_def method_available_def is_function_def function_keys_def cleanup_wait_def on_settled_def
  settle_wait_def checkMethod_def maxAttempts_def wait_handleReady_def new_wait_def waitForMethod_def
  proxy_get_def getEmail_fn_def spamCheck_fn_def generic_fn_def invoke_def run_listener_def
  dispatch_ready_def fire_def elapse_def fresh_world_def plain_url_def site_abc_def page_def
  in_flight_def torn_down_def Let_def

subsection \<open>The three-way race of the injector\<close>

text \<open>
  C2. For an injection in flight, whichever of the readiness event, the script error and
  the timer comes first settles the promise, and with it the readiness listener and the
  timer of that injection are gone from the registries. Whatever happens afterwards, in
  any order and number, the record of the injection (its promise included) stays as that
  first signal left it, and neither the listener nor the timer comes back.
\<close>

theorem first_signal_wins:
  assumes "in_flight w k" and "InjReady k \<in> set (ready_listeners w)" and "inj_element (injections w ! k)"
    and "ev = Ready \<or> ev = ScriptError k \<or>
         (\<exists>dt d. ev = Elapse dt \<and> next_timer (timers w) = Some (InjTimeout k, d) \<and> d \<le> now w + dt)"
  shows "hasResolved (injections (step ev w) ! k) \<and> inj_promise (injections (step ev w) ! k) \<noteq> Pending \<and>
         torn_down (step ev w) k \<and>
         (\<forall>es. injections (run es (step ev w)) ! k = injections (step ev w) ! k \<and>
               torn_down (run es (step ev w)) k)"

proof -
  from assms(1) have k: "k < length (injections w)" by (simp add: in_flight_def)
  have "\<exists>st f. st \<noteq> Pending \<and> ready_done (step ev w) k st f"
    using assms(4)
  proof (elim disjE exE conjE)
    assume "ev = Ready"
    moreover have "ready_outcome w \<noteq> Pending" by (simp add: ready_outcome_def split: option.splits)
    ultimately show ?thesis
      using dispatch_ready_in_flight [of w k] assms(1,2)
      by (auto simp: step_def awaiting_ready_def)
  next
    assume "ev = ScriptError k"
    then show ?thesis
      using script_onerror_in_flight [OF assms(1)] assms(3) k by (auto simp: step_def)
  next
    fix dt d assume "ev = Elapse dt" "next_timer (timers w) = Some (InjTimeout k, d)" "d \<le> now w + dt"
    then show ?thesis
      using elapse_timeout_in_flight [OF assms(1), of d dt] by (auto simp: step_def)
  qed
  then obtain st f where st: "st \<noteq> Pending" and rd: "ready_done (step ev w) k st f" by blast
  from rd have s: "settled_as (step ev w) k (injections (step ev w) ! k)"
    by (simp add: ready_done_settled)
  have "injections (run es (step ev w)) ! k = injections (step ev w) ! k \<and> torn_down (run es (step ev w)) k" for es
    using settled_as_run [OF s, of es] by (simp add: settled_as_def)
  with rd st show ?thesis by (simp add: ready_done_def)

qed

theorem first_signal_wins_witness:
  "in_flight (run [Init site_abc] page) 0 \<and>
   InjReady 0 \<in> set (ready_listeners (run [Init site_abc] page)) \<and>
   inj_promise (injections (step Ready (run [Init site_abc] page)) ! 0) = Rejected NotInitialized \<and>
   inj_promise (injections (run [ScriptError 0, Elapse 40000, Populate [], Ready]
      (step Ready (run [Init site_abc] page))) ! 0) = Rejected NotInitialized \<and>
   ready_listeners (run [ScriptError 0, Elapse 40000, Populate [], Ready]
      (step Ready (run [Init site_abc] page))) = [] \<and>
   timers (run [ScriptError 0, Elapse 40000, Populate [], Ready]
      (step Ready (run [Init site_abc] page))) = []"

proof -
  have w: "in_flight (run [Init site_abc] page) 0"
    "InjReady 0 \<in> set (ready_listeners (run [Init site_abc] page))"
    "inj_element (injections (run [Init site_abc] page) ! 0)"
    by (simp_all add: model_defs)
  have r: "inj_promise (injections (step Ready (run [Init site_abc] page)) ! 0) = Rejected NotInitialized"
    by (simp add: model_defs)
  from first_signal_wins [OF w, of Ready] r w show ?thesis
    by (simp add: model_defs)

qed

subsection \<open>What the injector reports\<close>

text \<open>
  C8. An injection in flight ends in one of four ways. A script error rejects the promise
  with the load error that names the source, the timer with the timeout error that names
  the duration, the readiness event with the binding absent with the error "loaded but did
  not properly initialize"; in all three the script element leaves the document. The
  readiness event with the binding populated resolves the promise with that binding and
  leaves the document as it is.
\<close>

theorem injection_outcomes:
  assumes "in_flight w k" and "InjReady k \<in> set (ready_listeners w)" and "inj_element (injections w ! k)"
  shows "(inj_promise (injections (step (ScriptError k) w) ! k)
            = Rejected (ScriptLoadError (inj_src (injections w ! k)))
          \<and> k \<notin> set (head (step (ScriptError k) w)))
       \<and> (next_timer (timers w) = Some (InjTimeout k, d) \<and> d \<le> now w + dt \<longrightarrow>
          inj_promise (injections (step (Elapse dt) w) ! k)
            = Rejected (LoadTimeout (inj_timeout (injections w ! k)))
          \<and> k \<notin> set (head (step (Elapse dt) w)))
       \<and> (bento w = None \<longrightarrow>
          inj_promise (injections (step Ready w) ! k) = Rejected NotInitialized
          \<and> k \<notin> set (head (step Ready w)))
       \<and> (bento w = Some b \<longrightarrow>
          inj_promise (injections (step Ready w) ! k) = Resolved b
          \<and> head (step Ready w) = head w)"

proof -
  from assms(1) have k: "k < length (injections w)" by (simp add: in_flight_def)
  from assms(1,2) have a: "awaiting_ready w k" by (simp add: awaiting_ready_def)
  have 1: "inj_promise (injections (step (ScriptError k) w) ! k)
           = Rejected (ScriptLoadError (inj_src (injections w ! k)))
         \<and> k \<notin> set (head (step (ScriptError k) w))"
    using script_onerror_in_flight [OF assms(1)] assms(3) k by (simp add: step_def ready_done_def)
  have 2: "next_timer (timers w) = Some (InjTimeout k, d) \<and> d \<le> now w + dt \<longrightarrow>
         inj_promise (injections (step (Elapse dt) w) ! k)
           = Rejected (LoadTimeout (inj_timeout (injections w ! k)))
         \<and> k \<notin> set (head (step (Elapse dt) w))"
    using elapse_timeout_in_flight [OF assms(1), of d dt] by (simp add: step_def ready_done_def)
  have 3: "bento w = None \<longrightarrow>
         inj_promise (injections (step Ready w) ! k) = Rejected NotInitialized
         \<and> k \<notin> set (head (step Ready w))"
    using dispatch_ready_in_flight [OF a] by (simp add: step_def ready_done_def ready_outcome_def)
  have 4: "bento w = Some b \<longrightarrow>
         inj_promise (injections (step Ready w) ! k) = Resolved b
         \<and> head (step Ready w) = head w"
    using dispatch_ready_in_flight [OF a] head_dispatch_ready_success [of w b]
    by (simp add: step_def ready_done_def ready_outcome_def)
  from 1 2 3 4 show ?thesis by blast

qed

theorem injection_outcomes_witness:
  "in_flight (run [Init site_abc] page) 0 \<and>
   inj_promise (injections (run [Init site_abc, ScriptError 0] page) ! 0)
     = Rejected (ScriptLoadError ''https://fast.bentonow.com?site_uuid=abc'') \<and>
   0 \<notin> set (head (run [Init site_abc, ScriptError 0] page)) \<and>
   inj_promise (injections (run [Init site_abc, Elapse 30000] page) ! 0) = Rejected (LoadTimeout 30000) \<and>
   0 \<notin> set (head (run [Init site_abc, Elapse 30000] page)) \<and>
   inj_promise (injections (run [Init site_abc, Ready] page) ! 0) = Rejected NotInitialized \<and>
   0 \<notin> set (head (run [Init site_abc, Ready] page)) \<and>
   inj_promise (injections (run [Init site_abc, Populate [], Ready] page) ! 0) = Resolved [] \<and>
   head (run [Init site_abc, Populate [], Ready] page) = [0]"

proof -
  have w: "in_flight (run [Init site_abc] page) 0"
    "InjReady 0 \<in> set (ready_listeners (run [Init site_abc] page))"
    "inj_element (injections (run [Init site_abc] page) ! 0)"
    by (simp_all add: model_defs)
  have w': "in_flight (run [Init site_abc, Populate []] page) 0"
    "InjReady 0 \<in> set (ready_listeners (run [Init site_abc, Populate []] page))"
    "inj_element (injections (run [Init site_abc, Populate []] page) ! 0)"
    by (simp_all add: model_defs)
  have t: "next_timer (timers (run [Init site_abc] page)) = Some (InjTimeout 0, 30000)"
    "now (run [Init site_abc] page) = 0" "bento (run [Init site_abc] page) = None"
    "inj_src (injections (run [Init site_abc] page) ! 0) = ''https://fast.bentonow.com?site_uuid=abc''"
    "inj_timeout (injections (run [Init site_abc] page) ! 0) = 30000"
    "head (run [Init site_abc, Populate []] page) = [0]"
    "bento (run [Init site_abc, Populate []] page) = Some []"
    by (simp_all add: model_defs)
  have r: "run [Init site_abc, e] page = step e (run [Init site_abc] page)"
    "run [Init site_abc, Populate [], e] page = step e (run [Init site_abc, Populate []] page)" for e
    by (simp_all add: run_def)
  from injection_outcomes [OF w, of 30000 30000 "[]"] injection_outcomes [OF w', of 0 0 "[]"] w(1) t
  show ?thesis unfolding r by simp

qed

subsection \<open>The clock and the timeout of an injection\<close>

lemma lv_fields:
  assumes "loader_view w' = loader_view w"
  shows "has_window w' = has_window w" "bento w' = bento w" "bento_dollar w' = bento_dollar w"
    "head w' = head w" "now w' = now w" "loaderPromise w' = loaderPromise w"
    "loadError w' = loadError w" "isLoading w' = isLoading w" "injections w' = injections w"
  using assms by (simp_all add: loader_view_def)

lemma lv_timer_mem:
  assumes "loader_view w' = loader_view w" "fst t = InjTimeout j"
  shows "t \<in> set (timers w') \<longleftrightarrow> t \<in> set (timers w)"

proof -
  from assms(1) have "filter is_inj_timer (timers w') = filter is_inj_timer (timers w)"
    by (simp add: loader_view_def)
  then have "t \<in> set (filter is_inj_timer (timers w')) \<longleftrightarrow> t \<in> set (filter is_inj_timer (timers w))"
    by simp
  with assms(2) show ?thesis by (simp add: is_inj_timer_def)

qed

lemma lv_listener_mem:
  assumes "loader_view w' = loader_view w"
  shows "InjReady j \<in> set (ready_listeners w') \<longleftrightarrow> InjReady j \<in> set (ready_listeners w)"
  unfolding in_set_inj_listener [of j "ready_listeners w'"] in_set_inj_listener [of j "ready_listeners w"]
  using assms by (simp add: loader_view_def)

lemma all_inj_timers:
  "(\<forall>t\<in>set ts. case fst t of InjTimeout j \<Rightarrow> P j | WaitInterval j \<Rightarrow> True)
     \<longleftrightarrow> (\<forall>j d. (InjTimeout j, d) \<in> set ts \<longrightarrow> P j)"

proof
  assume l: "\<forall>t\<in>set ts. case fst t of InjTimeout j \<Rightarrow> P j | WaitInterval j \<Rightarrow> True"
  show "\<forall>j d. (InjTimeout j, d) \<in> set ts \<longrightarrow> P j"
  proof (intro allI impI)
    fix j d assume "(InjTimeout j, d) \<in> set ts"
    with l have "case fst (InjTimeout j, d) of InjTimeout j \<Rightarrow> P j | WaitInterval j \<Rightarrow> True" by blast
    then show "P j" by simp
  qed

next
  assume r: "\<forall>j d. (InjTimeout j, d) \<in> set ts \<longrightarrow> P j"
  show "\<forall>t\<in>set ts. case fst t of InjTimeout j \<Rightarrow> P j | WaitInterval j \<Rightarrow> True"
  proof
    fix t assume "t \<in> set ts"
    with r show "case fst t of InjTimeout j \<Rightarrow> P j | WaitInterval j \<Rightarrow> True"
      by (cases t; cases "fst t") auto
  qed

qed

lemma all_inj_listeners:
  "(\<forall>l\<in>set ls. case l of InjReady j \<Rightarrow> P j | WaitReady j \<Rightarrow> True)
     \<longleftrightarrow> (\<forall>j. InjReady j \<in> set ls \<longrightarrow> P j)"
  by (auto split: listener.splits)

lemma wf_alt:
  "well_formed w \<longleftrightarrow> has_window w \<and>
     (\<forall>j d. (InjTimeout j, d) \<in> set (timers w) \<longrightarrow> j < length (injections w)) \<and>
     (\<forall>j. InjReady j \<in> set (ready_listeners w) \<longrightarrow> j < length (injections w))"
  unfolding well_formed_def all_inj_timers all_inj_listeners ..

lemma wf_view:
  assumes "loader_view w' = loader_view w"
  shows "well_formed w' = well_formed w"
  unfolding wf_alt
  by (simp add: lv_fields [OF assms] lv_listener_mem [OF assms] lv_timer_mem [OF assms])

lemma wf_handleError: "well_formed w \<Longrightarrow> well_formed (handleError j e w)"
  by (cases "hasResolved (injections w ! j)") (auto simp: wf_alt handleError_fields)

lemma wf_handleSuccess: "well_formed w \<Longrightarrow> well_formed (handleSuccess j b w)"
  by (cases "hasResolved (injections w ! j)") (auto simp: wf_alt handleSuccess_fields)

lemma wf_loadBento: "well_formed w \<Longrightarrow> well_formed (snd (loadBento cfg w))"

proof (cases cfg w rule: loadBento_cases)
  case (same res) then show "well_formed w \<Longrightarrow> ?thesis" by simp

next
  case invalid then show "well_formed w \<Longrightarrow> ?thesis" by (simp add: wf_alt)

next
  case (badurl e) then show "well_formed w \<Longrightarrow> ?thesis" by (simp add: wf_alt)

next
  case (start u)
  assume s: "well_formed w"
  have b: "bento (dev_log cfg (implicit_reset w)) = None" using start by simp
  show ?thesis using s
    by (auto simp: start start_load_fields [OF b] wf_alt less_Suc_eq)

qed

lemma wf_fire: "well_formed w \<Longrightarrow> well_formed (fire t w)"

proof (cases "fst t")
  case (InjTimeout j)
  assume "well_formed w"
  then have "well_formed (w\<lparr>timers := removeAll t (timers w)\<rparr>)" by (auto simp: wf_alt)
  then show ?thesis by (simp add: fire_def InjTimeout inj_timeout_cb_def wf_handleError)

next
  case (WaitInterval j)
  then show "well_formed w \<Longrightarrow> ?thesis" by (simp add: wf_view [OF lv_fire_wait])

qed

lemma wf_step: "well_formed w \<Longrightarrow> well_formed (step e w)"

proof (rule step_invariant [where I = well_formed])
  fix l s show "well_formed s \<Longrightarrow> well_formed (run_listener l s)"
    by (cases l)
       (auto simp: run_listener_def inj_handleReady_def wf_handleError wf_handleSuccess
          wf_view [OF lv_wait_handleReady] split: option.splits)

next
  fix k s assume "well_formed s"
  then have "well_formed (logline (LogScriptError k) s)" by (simp add: wf_view [OF lv_logline])
  then show "well_formed (script_onerror k s)" unfolding script_onerror_def by (rule wf_handleError)

next
  fix dt s assume s: "well_formed s"
  have n: "well_formed (s\<lparr>now := n\<rparr>)" for n using s by (simp add: wf_alt)
  show "well_formed (elapse dt s)"
    by (rule elapse_cases [where dt = dt and w = s]) (simp_all add: n wf_fire)

qed (simp_all add: wf_loadBento wf_view [OF lv_invoke], simp_all add: wf_alt)

lemma wf_run: "well_formed w \<Longrightarrow> well_formed (run es w)"
  by (rule run_invariant [where I = well_formed]) (simp_all add: wf_step)

lemma wf_fresh: "well_formed (fresh_world host url)"
  by (simp add: well_formed_def fresh_world_def)

lemma handler_now [simp]:
  "now (handleError k e w) = now w" "now (handleSuccess k api w) = now w"
  by (cases "hasResolved (injections w ! k)"; simp add: handleError_fields handleSuccess_fields)+

lemma now_loadBento [simp]: "now (snd (loadBento cfg w)) = now w"

proof (cases cfg w rule: loadBento_cases)
  case (start u)
  have b: "bento (dev_log cfg (implicit_reset w)) = None" using start by simp
  show ?thesis by (simp add: start start_load_fields [OF b])

qed simp_all

lemma now_invoke [simp]: "now (snd (invoke p a w)) = now w"
  by (rule lv_fields(5) [OF lv_invoke])

lemma now_run_listener [simp]: "now (run_listener l w) = now w"
  by (cases l)
     (simp_all add: run_listener_def inj_handleReady_def lv_fields(5) [OF lv_wait_handleReady]
        split: option.splits)

lemma now_script_onerror [simp]: "now (script_onerror k w) = now w"
  by (simp add: script_onerror_def)

lemma now_fire [simp]: "now (fire t w) = now w"
  by (cases "fst t") (simp_all add: fire_def inj_timeout_cb_def lv_fields(5) [OF lv_checkMethod])

lemma now_elapse: "now w \<le> now (elapse dt w)"
  by (rule elapse_cases [where dt = dt and w = w]) simp_all

lemma now_step: "now w \<le> now (step e w)"

proof -
  have "now w \<le> now w \<Longrightarrow> now w \<le> now (step e w)"
  proof (rule step_invariant [where I = "\<lambda>s. now w \<le> now s"])
    fix dt and s :: world assume "now w \<le> now s"
    with now_elapse [of s dt] show "now w \<le> now (elapse dt s)" by simp
  qed simp_all
  then show ?thesis by simp

qed

lemma awaiting_timeout_view:
  assumes "loader_view w' = loader_view w"
  shows "awaiting_timeout w' k D T = awaiting_timeout w k D T"

proof -
  have "(\<forall>t\<in>set (timers w'). fst t = InjTimeout k \<longrightarrow> snd t = D)
        \<longleftrightarrow> (\<forall>t\<in>set (timers w). fst t = InjTimeout k \<longrightarrow> snd t = D)"
    using lv_timer_mem [OF assms] by blast
  then show ?thesis
    unfolding awaiting_timeout_def
    by (simp add: lv_fields [OF assms] lv_timer_mem [OF assms])

qed

lemma awaiting_timeout_handleError:
  assumes "awaiting_timeout w k D T" "j \<noteq> k"
  shows "awaiting_timeout (handleError j e w) k D T"

proof (cases "hasResolved (injections w ! j)")
  case True
  with assms(1) show ?thesis by simp

next
  case False
  from assms show ?thesis
    by (auto simp: awaiting_timeout_def handleError_fields [OF False])

qed

lemma awaiting_timeout_loadBento:
  assumes "awaiting_timeout w k D T"
  shows "awaiting_timeout (snd (loadBento cfg w)) k D T"

proof (cases cfg w rule: loadBento_cases)
  case (same res) with assms show ?thesis by simp

next
  case invalid with assms show ?thesis by (simp add: awaiting_timeout_def)

next
  case (badurl e) with assms show ?thesis by (simp add: awaiting_timeout_def)

next
  case (start u)
  have b: "bento (dev_log cfg (implicit_reset w)) = None" using start by simp
  from assms show ?thesis
    by (auto simp: start start_load_fields [OF b] awaiting_timeout_def nth_append)

qed

lemma timeout_fires:
  assumes "awaiting_timeout w k D T" "now w = D"
  shows "timed_out (fire (InjTimeout k, D) w) k D T"

proof -
  let ?w1 = "w\<lparr>timers := removeAll (InjTimeout k, D) (timers w)\<rparr>"
  from assms have nr: "\<not> hasResolved (injections ?w1 ! k)" and k: "k < length (injections w)"
    and T: "inj_timeout (injections w ! k) = T"
    by (simp_all add: awaiting_timeout_def)
  have "fire (InjTimeout k, D) w = handleError k (LoadTimeout T) ?w1"
    by (simp add: fire_def inj_timeout_cb_def T)
  then show ?thesis using k assms(2)
    by (auto simp: timed_out_def settled_as_def torn_down_def handleError_fields [OF nr])

qed

lemma awaiting_timeout_elapse:
  assumes "awaiting_timeout w k D T"
  shows "awaiting_timeout (elapse dt w) k D T \<or> timed_out (elapse dt w) k D T"

proof (rule elapse_cases [where dt = dt and w = w])
  assume e: "elapse dt w = w\<lparr>now := now w + dt\<rparr>" and a: "\<forall>t\<in>set (timers w). now w + dt < snd t"
  from assms have "(InjTimeout k, D) \<in> set (timers w)" by (simp add: awaiting_timeout_def)
  with a have "now w + dt < D" by fastforce
  with assms show ?thesis by (simp add: e awaiting_timeout_def)

next
  fix t assume t: "t \<in> set (timers w)" "snd t \<le> now w + dt" "\<forall>u\<in>set (timers w). snd t \<le> snd u"
    and e: "elapse dt w = fire t (w\<lparr>now := max (now w) (snd t)\<rparr>)"
  let ?w1 = "w\<lparr>now := max (now w) (snd t)\<rparr>"
  from assms have m: "(InjTimeout k, D) \<in> set (timers w)" and n: "now w \<le> D"
    by (simp_all add: awaiting_timeout_def)
  from t(3) m have le: "snd t \<le> D" by fastforce
  with n assms have a1: "awaiting_timeout ?w1 k D T" by (simp add: awaiting_timeout_def)
  show ?thesis
  proof (cases "fst t")
    case (WaitInterval j)
    with a1 show ?thesis by (simp add: e awaiting_timeout_view [OF lv_fire_wait])
  next
    case (InjTimeout j)
    show ?thesis
    proof (cases "j = k")
      case True
      with InjTimeout t(1) assms have "snd t = D" by (simp add: awaiting_timeout_def)
      with InjTimeout True have tt: "t = (InjTimeout k, D)" by (cases t) simp
      from n have "now ?w1 = D" by (simp add: tt)
      from timeout_fires [OF a1 this] show ?thesis by (simp add: e tt)
    next
      case False
      with InjTimeout have ne: "t \<noteq> (InjTimeout k, D)" by auto
      from a1 ne have "awaiting_timeout (?w1\<lparr>timers := removeAll t (timers ?w1)\<rparr>) k D T"
        by (auto simp: awaiting_timeout_def)
      from awaiting_timeout_handleError [OF this False] show ?thesis
        by (simp add: e fire_def InjTimeout inj_timeout_cb_def)
    qed
  qed

qed

lemma awaiting_timeout_step:
  assumes "awaiting_timeout w k D T" "e \<noteq> Ready" "e \<noteq> ScriptError k"
  shows "awaiting_timeout (step e w) k D T \<or> timed_out (step e w) k D T"

proof (cases e)
  case (Init cfg)
  with assms(1) show ?thesis by (simp add: step_def awaiting_timeout_loadBento)

next
  case Reset
  with assms(1) show ?thesis by (simp add: step_def awaiting_timeout_def)

next
  case (Invoke p a)
  with assms(1) show ?thesis by (simp add: step_def awaiting_timeout_view [OF lv_invoke])

next
  case (Populate b)
  with assms(1) show ?thesis by (simp add: step_def awaiting_timeout_def)

next
  case (PopulateDollar d)
  with assms(1) show ?thesis by (simp add: step_def awaiting_timeout_def)

next
  case Ready
  with assms(2) show ?thesis by simp

next
  case (ScriptError j)
  with assms(3) have jk: "j \<noteq> k" by simp
  from assms(1) have "awaiting_timeout (logline (LogScriptError j) w) k D T"
    by (simp add: awaiting_timeout_view [OF lv_logline])
  from awaiting_timeout_handleError [OF this jk] assms(1) ScriptError show ?thesis
    by (simp add: step_def script_onerror_def)

next
  case (Elapse dt)
  with awaiting_timeout_elapse [OF assms(1)] show ?thesis by (simp add: step_def)

qed

lemma timed_out_step:
  assumes "timed_out w k D T"
  shows "timed_out (step e w) k D T"

proof -
  from assms have s: "settled_as w k (injections w ! k)" by (simp add: timed_out_def)
  from settled_as_step [OF s, of e] have s': "settled_as (step e w) k (injections w ! k)" .
  then have eq: "injections (step e w) ! k = injections w ! k" by (simp add: settled_as_def)
  from assms now_step [of w e] s' eq show ?thesis by (simp add: timed_out_def)

qed

lemma timeout_run:
  assumes "awaiting_timeout w k D T \<or> timed_out w k D T" "Ready \<notin> set es" "ScriptError k \<notin> set es"
  shows "awaiting_timeout (run es w) k D T \<or> timed_out (run es w) k D T"
  using assms

proof (induction es arbitrary: w)
  case Nil
  then show ?case by simp

next
  case (Cons e es)
  from Cons.prems have "awaiting_timeout (step e w) k D T \<or> timed_out (step e w) k D T"
    using awaiting_timeout_step [of w k D T e] timed_out_step [of w k D T e] by auto
  with Cons show ?case by simp

qed

lemma url_api_logline [simp]: "url_api (logline l w) = url_api w"
  by (simp add: logline_def)

lemma script_url_frame [simp]: "script_url cfg (dev_log cfg (implicit_reset w)) = script_url cfg w"
  by (simp add: script_url_def dev_log_def implicit_reset_def Let_def)

lemma loadBento_starts:
  assumes "well_formed w" "bento w = None" "loaderPromise w = None"
    "\<not> invalid_siteUuid (siteUuid cfg)" "script_url cfg w = Some u"
  shows "fst (loadBento cfg w) = Stored (length (injections w))"
    "awaiting_timeout (snd (loadBento cfg w)) (length (injections w))
       (now w + setTimeout_delay (effective_timeout cfg)) (effective_timeout cfg)"

proof -
  let ?w2 = "dev_log cfg (implicit_reset w)"
  have b: "bento ?w2 = None" using assms(2) by simp
  from assms have lb: "loadBento cfg w = start_load cfg u ?w2"
    by (simp add: loadBento_def well_formed_def)
  show "fst (loadBento cfg w) = Stored (length (injections w))"
    by (simp add: lb start_load_fields [OF b])
  from assms(1) have "\<forall>j d. (InjTimeout j, d) \<in> set (timers w) \<longrightarrow> j < length (injections w)"
    by (simp add: wf_alt)
  then have "\<forall>t\<in>set (timers w). fst t \<noteq> InjTimeout (length (injections w))"
    by (metis less_irrefl prod.collapse)
  then show "awaiting_timeout (snd (loadBento cfg w)) (length (injections w))
       (now w + setTimeout_delay (effective_timeout cfg)) (effective_timeout cfg)"
    by (auto simp: lb start_load_fields [OF b] awaiting_timeout_def new_injection_def)

qed

text \<open>
  C6, as the code has it. Take any world a page can reach in which the binding is absent
  and no load is stored, and a configuration that passes validation and URL construction:
  there \<^verbatim>\<open>init\<close> starts an injection, with a timer of its own, and returns the stored
  promise of that injection.
  The timeout in force is \<^verbatim>\<open>config.timeout || 30000\<close>: the configured duration when it
  is not zero, and 30000 ms when it is absent or zero. The deadline is the time of the call
  plus the delay \<^verbatim>\<open>setTimeout\<close> makes of the timeout in force: the duration itself from
  0 to 2147483647 ms, and no delay for a negative duration down to -2147483648 ms and for
  one from 2147483648 to 4294967295 ms. If from the call on the readiness event never
  fires and that script never errors, then, whatever else happens, the promise is pending
  as long as the clock is before the deadline, it is rejected with the timeout error,
  which names the timeout in force, once the clock is past the deadline, and it is never
  anything else.
\<close>

theorem timeout_at_effective_deadline:
  assumes "w0 = run es0 (fresh_world host url)"
    and "bento w0 = None" and "loaderPromise w0 = None"
    and "\<not> invalid_siteUuid (siteUuid cfg)" and "script_url cfg w0 = Some u"
    and "Ready \<notin> set es" and "ScriptError (length (injections w0)) \<notin> set es"
    and "w = run es (snd (loadBento cfg w0))"
    and "T = effective_timeout cfg"
    and "D = now w0 + setTimeout_delay T"
    and "p = ld_promise (injections w ! length (injections w0))"
  shows "fst (loadBento cfg w0) = Stored (length (injections w0))
       \<and> (now w < D \<longrightarrow> p = Pending)
       \<and> (D < now w \<longrightarrow> p = Rejected (LoadTimeout T))
       \<and> (p = Pending \<or> p = Rejected (LoadTimeout T))
       \<and> T = (case timeout cfg of None \<Rightarrow> 30000 | Some t \<Rightarrow> if t = 0 then 30000 else t)
       \<and> (0 \<le> T \<and> T \<le> 2147483647 \<longrightarrow> D = now w0 + nat T)
       \<and> (2147483648 \<le> T \<and> T \<le> 4294967295 \<longrightarrow> D = now w0)
       \<and> (- 2147483648 \<le> T \<and> T < 0 \<longrightarrow> D = now w0)"

proof -
  let ?k = "length (injections w0)"
  have wf0: "well_formed w0" unfolding assms(1) by (rule wf_run [OF wf_fresh])
  note st = loadBento_starts [OF wf0 assms(2,3,4,5)]
  from st(2) have "awaiting_timeout (snd (loadBento cfg w0)) ?k D T \<or> timed_out (snd (loadBento cfg w0)) ?k D T"
    by (simp add: assms(9,10))
  from timeout_run [OF this assms(6,7)]
  have "awaiting_timeout w ?k D T \<or> timed_out w ?k D T" by (simp add: assms(8))
  then have a: "(now w < D \<longrightarrow> p = Pending) \<and> (D < now w \<longrightarrow> p = Rejected (LoadTimeout T))
       \<and> (p = Pending \<or> p = Rejected (LoadTimeout T))"
    by (auto simp: awaiting_timeout_def timed_out_def assms(11))
  have b: "T = (case timeout cfg of None \<Rightarrow> 30000 | Some t \<Rightarrow> if t = 0 then 30000 else t)"
    by (simp add: assms(9) effective_timeout_def)
  have c: "0 \<le> T \<and> T \<le> 2147483647 \<longrightarrow> D = now w0 + nat T"
    by (simp add: assms(10) setTimeout_delay_def)
  have d: "2147483648 \<le> T \<and> T \<le> 4294967295 \<longrightarrow> D = now w0"
    by (simp add: assms(10) setTimeout_delay_def)
  have e: "- 2147483648 \<le> T \<and> T < 0 \<longrightarrow> D = now w0"
  proof
    assume r: "- 2147483648 \<le> T \<and> T < 0"
    have "T mod 4294967296 = (T + 4294967296) mod 4294967296" by simp
    also from r have "\<dots> = T + 4294967296" by (intro mod_pos_pos_trivial) simp_all
    finally have "T mod 4294967296 = T + 4294967296" .
    with r show "D = now w0" by (simp add: assms(10) setTimeout_delay_def)
  qed
  from st(1) a b c d e show ?thesis by blast

qed

theorem timeout_at_effective_deadline_witness:
  "ld_promise (injections (run [Elapse 2000, Invoke ''track'' [], Elapse 100]
       (snd (loadBento (site_abc\<lparr>timeout := Some 5000\<rparr>) page))) ! 0) = Pending
   \<and> now (run [Elapse 5000, Populate [], Elapse 1] (snd (loadBento (site_abc\<lparr>timeout := Some 5000\<rparr>) page))) = 5001
   \<and> ld_promise (injections (run [Elapse 5000, Populate [], Elapse 1]
       (snd (loadBento (site_abc\<lparr>timeout := Some 5000\<rparr>) page))) ! 0) = Rejected (LoadTimeout 5000)
   \<and> now (run [Elapse 0, Elapse 1] (snd (loadBento (site_abc\<lparr>timeout := Some 3000000000\<rparr>) page))) = 1
   \<and> ld_promise (injections (run [Elapse 0, Elapse 1]
       (snd (loadBento (site_abc\<lparr>timeout := Some 3000000000\<rparr>) page))) ! 0) = Rejected (LoadTimeout 3000000000)"

proof -
  let ?cfg = "site_abc\<lparr>timeout := Some 5000\<rparr>"
  let ?big = "site_abc\<lparr>timeout := Some 3000000000\<rparr>"
  let ?es1 = "[Elapse 2000, Invoke ''track'' [], Elapse 100]"
  let ?es2 = "[Elapse 5000, Populate [], Elapse 1]"
  let ?es3 = "[Elapse 0, Elapse 1]"
  have h: "page = run [] (fresh_world ''example.com'' plain_url)" "bento page = None"
    "loaderPromise page = None" "\<not> invalid_siteUuid (siteUuid ?cfg)"
    "script_url ?cfg page = Some ''https://fast.bentonow.com?site_uuid=abc''"
    by (simp_all add: model_defs)
  have hb: "\<not> invalid_siteUuid (siteUuid ?big)"
    "script_url ?big page = Some ''https://fast.bentonow.com?site_uuid=abc''"
    by (simp_all add: model_defs)
  have z: "length (injections page) = 0" by (simp add: model_defs)
  have t: "5000 = effective_timeout ?cfg" by (simp add: model_defs)
  have d: "5000 = now page + setTimeout_delay 5000" by (simp add: model_defs)
  have tb: "3000000000 = effective_timeout ?big" by (simp add: model_defs)
  have db: "0 = now page + setTimeout_delay 3000000000" by (simp add: model_defs)
  have e1: "Ready \<notin> set ?es1" "ScriptError (length (injections page)) \<notin> set ?es1" by simp_all
  have e2: "Ready \<notin> set ?es2" "ScriptError (length (injections page)) \<notin> set ?es2" by simp_all
  have e3: "Ready \<notin> set ?es3" "ScriptError (length (injections page)) \<notin> set ?es3" by simp_all
  have n1: "now (run ?es1 (snd (loadBento ?cfg page))) < 5000"
    by (simp add: model_defs)
  have n2: "now (run ?es2 (snd (loadBento ?cfg page))) = 5001"
    by (simp add: model_defs)
  have n3: "now (run ?es3 (snd (loadBento ?big page))) = 1"
    by (simp add: model_defs)
  from timeout_at_effective_deadline [OF h e1 refl t d refl] n1
  have 1: "ld_promise (injections (run ?es1 (snd (loadBento ?cfg page))) ! 0) = Pending"
    unfolding z by blast
  from timeout_at_effective_deadline [OF h e2 refl t d refl] n2
  have 2: "ld_promise (injections (run ?es2 (snd (loadBento ?cfg page))) ! 0) = Rejected (LoadTimeout 5000)"
    unfolding z by simp
  from timeout_at_effective_deadline [OF h(1,2,3) hb e3 refl tb db refl] n3
  have 3: "ld_promise (injections (run ?es3 (snd (loadBento ?big page))) ! 0) = Rejected (LoadTimeout 3000000000)"
    unfolding z by simp
  from 1 n2 2 n3 3 show ?thesis by blast

qed

text \<open>
  A configured timeout of zero is not in force: 29999 ms after the call, with neither
  signal fired, the promise is still pending.
\<close>

theorem zero_timeout_counterexample:
  "timeout (site_abc\<lparr>timeout := Some 0\<rparr>) = Some 0
   \<and> now (run [Init (site_abc\<lparr>timeout := Some 0\<rparr>), Elapse 29999] page) = 29999
   \<and> ld_promise (injections (run [Init (site_abc\<lparr>timeout := Some 0\<rparr>), Elapse 29999] page) ! 0) = Pending"
  by (simp add: model_defs)

subsection \<open>The bookkeeping of the loader\<close>

lemma lbookI:
  assumes "\<And>k. in_flight w k \<Longrightarrow>
           loaderPromise w = Some k \<and> isLoading w \<and> loadError w = None \<and>
           ld_promise (injections w ! k) = Pending \<and> Suc k = length (injections w)"
    and "isLoading w \<Longrightarrow> \<exists>k<length (injections w). \<not> hasResolved (injections w ! k)"
    and "loadError w \<noteq> None \<Longrightarrow> loaderPromise w = None"
    and "\<And>p. loaderPromise w = Some p \<Longrightarrow>
           p < length (injections w) \<and> (hasResolved (injections w ! p) \<longrightarrow> bento w \<noteq> None)"
    and "\<And>e. loadError w = Some e \<Longrightarrow>
           e = InvalidSiteUuid \<or> (injections w \<noteq> [] \<and> ld_promise (last (injections w)) = Rejected e)"
    and "\<And>k b. k < length (injections w) \<Longrightarrow> ld_promise (injections w ! k) = Resolved b \<Longrightarrow>
           loadError w = None \<and> bento w \<noteq> None \<and> list_all hasResolved (injections w)"
  shows "lbook w"
  unfolding lbook_def using assms by blast

lemma lbookD:
  assumes "lbook w"
  shows "\<And>k. in_flight w k \<Longrightarrow>
           loaderPromise w = Some k \<and> isLoading w \<and> loadError w = None \<and>
           ld_promise (injections w ! k) = Pending \<and> Suc k = length (injections w)"
    and "isLoading w \<Longrightarrow> \<exists>k<length (injections w). \<not> hasResolved (injections w ! k)"
    and "loadError w \<noteq> None \<Longrightarrow> loaderPromise w = None"
    and "\<And>p. loaderPromise w = Some p \<Longrightarrow>
           p < length (injections w) \<and> (hasResolved (injections w ! p) \<longrightarrow> bento w \<noteq> None)"
    and "\<And>e. loadError w = Some e \<Longrightarrow>
           e = InvalidSiteUuid \<or> (injections w \<noteq> [] \<and> ld_promise (last (injections w)) = Rejected e)"
    and "\<And>k b. k < length (injections w) \<Longrightarrow> ld_promise (injections w ! k) = Resolved b \<Longrightarrow>
           loadError w = None \<and> bento w \<noteq> None \<and> list_all hasResolved (injections w)"
  using assms unfolding lbook_def by blast+

lemma lbook_cong:
  assumes "injections w' = injections w" "loaderPromise w' = loaderPromise w"
    "loadError w' = loadError w" "isLoading w' = isLoading w" "bento w' = bento w"
  shows "lbook w' = lbook w"
  unfolding lbook_def in_flight_def by (simp add: assms)

lemma linv_view:
  assumes "loader_view w' = loader_view w"
  shows "linv w' = linv w"
  unfolding linv_def
  by (simp add: wf_view [OF assms] lbook_cong [OF lv_fields(9,6,7,8,2) [OF assms]])

lemma linv_now [simp]: "linv (w\<lparr>now := n\<rparr>) = linv w"
  unfolding linv_def by (simp add: wf_alt lbook_cong [of "w\<lparr>now := n\<rparr>" w])

lemma linv_dollar [simp]: "linv (w\<lparr>bento_dollar := d\<rparr>) = linv w"
  unfolding linv_def by (simp add: wf_alt lbook_cong [of "w\<lparr>bento_dollar := d\<rparr>" w])

lemma linv_remove_timer: "linv w \<Longrightarrow> linv (w\<lparr>timers := removeAll t (timers w)\<rparr>)"
  unfolding linv_def
  by (simp add: lbook_cong [of "w\<lparr>timers := removeAll t (timers w)\<rparr>" w]) (auto simp: wf_alt)

lemma lbook_unique:
  assumes "lbook w" "in_flight w i" "in_flight w j"
  shows "i = j"
  using lbookD(1) [OF assms(1,2)] lbookD(1) [OF assms(1,3)] by simp

lemma none_in_flight: "list_all hasResolved (injections w) \<longleftrightarrow> (\<forall>k. \<not> in_flight w k)"
  by (auto simp: list_all_length in_flight_def)

lemma lbook_idle:
  assumes "lbook w" "loaderPromise w = None"
  shows "list_all hasResolved (injections w)" "\<not> isLoading w"

proof -
  from lbookD(1) [OF assms(1)] assms(2) show a: "list_all hasResolved (injections w)"
    unfolding none_in_flight by fastforce
  from lbookD(2) [OF assms(1)] a show "\<not> isLoading w" by (auto simp: list_all_length)

qed

lemma lbook_populate:
  assumes "lbook w"
  shows "lbook (w\<lparr>bento := Some b\<rparr>)"

proof (rule lbookI)
  fix k assume "in_flight (w\<lparr>bento := Some b\<rparr>) k"
  then have "in_flight w k" by (simp add: in_flight_def)
  from lbookD(1) [OF assms this]
  show "loaderPromise (w\<lparr>bento := Some b\<rparr>) = Some k \<and> isLoading (w\<lparr>bento := Some b\<rparr>) \<and>
        loadError (w\<lparr>bento := Some b\<rparr>) = None \<and>
        ld_promise (injections (w\<lparr>bento := Some b\<rparr>) ! k) = Pending \<and>
        Suc k = length (injections (w\<lparr>bento := Some b\<rparr>))" by simp

qed (use lbookD(2,3,4,5,6) [OF assms] in \<open>simp_all\<close>)

lemma lbook_reset:
  assumes "lbook w" "list_all hasResolved (injections w)"
  shows "lbook (resetBento w)"

proof (rule lbookI)
  fix k assume "in_flight (resetBento w) k"
  with assms(2) show "loaderPromise (resetBento w) = Some k \<and> isLoading (resetBento w) \<and>
        loadError (resetBento w) = None \<and> ld_promise (injections (resetBento w) ! k) = Pending \<and>
        Suc k = length (injections (resetBento w))"
    by (auto simp: list_all_length in_flight_def)

next
  fix k b assume "k < length (injections (resetBento w))" "ld_promise (injections (resetBento w) ! k) = Resolved b"
  with lbookD(6) [OF assms(1), of k b]
  show "loadError (resetBento w) = None \<and> bento (resetBento w) \<noteq> None \<and>
        list_all hasResolved (injections (resetBento w))" by simp

qed simp_all

lemma then_result_cases:
  "then_result k api w = Resolved api \<or> (\<exists>s. then_result k api w = Rejected (Thrown s))"
  by (simp add: then_result_def split: option.splits)

lemma last_update_last: "Suc j = length xs \<Longrightarrow> last (xs[j := r]) = r"
  by (cases xs rule: rev_cases) auto

text \<open>The injection in flight fails: nothing is in flight any more and its error is stored.\<close>

lemma lbook_failed:
  assumes "lbook w" "in_flight w j"
    and inj: "injections w' = (injections w)[j := r]" and r: "hasResolved r" "ld_promise r = Rejected e"
    and v: "loaderPromise w' = None" "loadError w' = Some e" "isLoading w' = False" "bento w' = bento w"
  shows "lbook w'"

proof -
  from assms(2) have j: "j < length (injections w)" by (simp add: in_flight_def)
  from lbookD(1) [OF assms(1,2)] have last: "Suc j = length (injections w)" by simp
  have nf: "\<not> in_flight w' k" for k
  proof (cases "k = j")
    case True
    with j r(1) show ?thesis by (simp add: in_flight_def inj)
  next
    case False
    with lbook_unique [OF assms(1) _ assms(2), of k] have "\<not> in_flight w k" by blast
    with False show ?thesis by (simp add: in_flight_def inj)
  qed
  show ?thesis
  proof (rule lbookI)
    fix k assume "in_flight w' k"
    with nf show "loaderPromise w' = Some k \<and> isLoading w' \<and> loadError w' = None \<and>
      ld_promise (injections w' ! k) = Pending \<and> Suc k = length (injections w')" by simp
  next
    fix e' assume "loadError w' = Some e'"
    with v have "e' = e" by simp
    moreover have "injections w' \<noteq> []" using j by (auto simp: inj)
    moreover have "ld_promise (last (injections w')) = Rejected e"
      using last r(2) by (simp add: inj last_update_last)
    ultimately show "e' = InvalidSiteUuid \<or> injections w' \<noteq> [] \<and> ld_promise (last (injections w')) = Rejected e'"
      by simp
  next
    fix k b assume k: "k < length (injections w')" and res: "ld_promise (injections w' ! k) = Resolved b"
    with r(2) j have "k \<noteq> j" by (auto simp: inj)
    with k res have "k < length (injections w)" "ld_promise (injections w ! k) = Resolved b"
      by (simp_all add: inj)
    from lbookD(6) [OF assms(1) this] assms(2) have False
      by (auto simp: list_all_length in_flight_def)
    then show "loadError w' = None \<and> bento w' \<noteq> None \<and> list_all hasResolved (injections w')" ..
  qed (simp_all add: v)

qed

text \<open>The injection in flight succeeds with the binding populated.\<close>

lemma lbook_succeeded:
  assumes "lbook w" "in_flight w j" "bento w \<noteq> None"
    and inj: "injections w' = (injections w)[j := r]" and r: "hasResolved r" "ld_promise r = Resolved b"
    and v: "loaderPromise w' = loaderPromise w" "loadError w' = None" "isLoading w' = False" "bento w' = bento w"
  shows "lbook w'"

proof -
  from assms(2) have j: "j < length (injections w)" by (simp add: in_flight_def)
  have nf: "\<not> in_flight w' k" for k
  proof (cases "k = j")
    case True
    with j r(1) show ?thesis by (simp add: in_flight_def inj)
  next
    case False
    with lbook_unique [OF assms(1) _ assms(2), of k] have "\<not> in_flight w k" by blast
    with False show ?thesis by (simp add: in_flight_def inj)
  qed
  then have all: "list_all hasResolved (injections w')" by (simp add: none_in_flight)
  show ?thesis
  proof (rule lbookI)
    fix k assume "in_flight w' k"
    with nf show "loaderPromise w' = Some k \<and> isLoading w' \<and> loadError w' = None \<and>
      ld_promise (injections w' ! k) = Pending \<and> Suc k = length (injections w')" by simp
  next
    fix p assume "loaderPromise w' = Some p"
    with v(1) lbookD(4) [OF assms(1), of p] assms(3) v(4)
    show "p < length (injections w') \<and> (hasResolved (injections w' ! p) \<longrightarrow> bento w' \<noteq> None)"
      by (simp add: inj)
  next
    fix k b' assume "k < length (injections w')" "ld_promise (injections w' ! k) = Resolved b'"
    show "loadError w' = None \<and> bento w' \<noteq> None \<and> list_all hasResolved (injections w')"
      using all v assms(3) by simp
  qed (simp_all add: v)

qed

lemma linv_handleError:
  assumes "linv w" "j < length (injections w)"
  shows "linv (handleError j e w)"

proof (cases "hasResolved (injections w ! j)")
  case True
  with assms(1) show ?thesis by simp

next
  case False
  with assms(2) have fj: "in_flight w j" by (simp add: in_flight_def)
  from assms(1) have "lbook w" "well_formed w" by (simp_all add: linv_def)
  from lbook_failed [OF this(1) fj handleError_fields(1) [OF False] _ _ handleError_fields(9,10,11,5) [OF False]]
    wf_handleError [OF this(2)]
  show ?thesis by (simp add: linv_def)

qed

lemma linv_handleSuccess:
  assumes "linv w" "j < length (injections w)" "bento w = Some b"
  shows "linv (handleSuccess j b w)"

proof (cases "hasResolved (injections w ! j)")
  case True
  with assms(1) show ?thesis by simp

next
  case False
  with assms(2) have fj: "in_flight w j" by (simp add: in_flight_def)
  from assms(1) have lb: "lbook w" and wf: "well_formed w" by (simp_all add: linv_def)
  note f = handleSuccess_fields [OF False, of b]
  from then_result_cases [of j b w] have "lbook (handleSuccess j b w)"
  proof (elim disjE exE)
    assume t: "then_result j b w = Resolved b"
    show ?thesis
      by (rule lbook_succeeded [OF lb fj _ f(1)]) (simp_all add: assms(3) t f)
  next
    fix s assume t: "then_result j b w = Rejected (Thrown s)"
    show ?thesis
      by (rule lbook_failed [OF lb fj f(1)]) (simp_all add: t f)
  qed
  with wf_handleSuccess [OF wf] show ?thesis by (simp add: linv_def)

qed

lemma linv_loadBento:
  assumes "linv w"
  shows "linv (snd (loadBento cfg w))"

proof (cases cfg w rule: loadBento_cases)
  case (same res)
  with assms show ?thesis by simp

next
  case invalid
  from assms have lb: "lbook w" and wf: "well_formed w" by (simp_all add: linv_def)
  note idle = lbook_idle [OF lb invalid(3)]
  let ?w' = "(implicit_reset w)\<lparr>loadError := Some InvalidSiteUuid\<rparr>"
  have il: "\<not> isLoading ?w'" using idle(2) by (simp add: implicit_reset_def)
  have lp: "loaderPromise ?w' = None" using invalid(3) by (simp add: implicit_reset_idle)
  have "lbook ?w'"
  proof (rule lbookI)
    fix k assume "in_flight ?w' k"
    with idle(1) show "loaderPromise ?w' = Some k \<and> isLoading ?w' \<and> loadError ?w' = None \<and>
      ld_promise (injections ?w' ! k) = Pending \<and> Suc k = length (injections ?w')"
      by (auto simp: list_all_length in_flight_def)
  next
    fix k b assume "k < length (injections ?w')" "ld_promise (injections ?w' ! k) = Resolved b"
    with lbookD(6) [OF lb, of k b] invalid(2)
    show "loadError ?w' = None \<and> bento ?w' \<noteq> None \<and> list_all hasResolved (injections ?w')" by simp
  qed (use il lp in simp_all)
  moreover have "well_formed ?w'" using wf by (simp add: wf_alt)
  ultimately show ?thesis by (simp add: invalid linv_def)

next
  case (badurl e)
  from assms have lb: "lbook w" and wf: "well_formed w" by (simp_all add: linv_def)
  note idle = lbook_idle [OF lb badurl(3)]
  let ?w' = "dev_log cfg (implicit_reset w)"
  have il: "\<not> isLoading ?w'" using idle(2) by (simp add: implicit_reset_def)
  have lp: "loaderPromise ?w' = None" using badurl(3) by (simp add: implicit_reset_idle)
  have "lbook ?w'"
  proof (rule lbookI)
    fix k assume "in_flight ?w' k"
    with idle(1) show "loaderPromise ?w' = Some k \<and> isLoading ?w' \<and> loadError ?w' = None \<and>
      ld_promise (injections ?w' ! k) = Pending \<and> Suc k = length (injections ?w')"
      by (auto simp: list_all_length in_flight_def)
  next
    fix k b assume "k < length (injections ?w')" "ld_promise (injections ?w' ! k) = Resolved b"
    with lbookD(6) [OF lb, of k b] badurl(2)
    show "loadError ?w' = None \<and> bento ?w' \<noteq> None \<and> list_all hasResolved (injections ?w')" by simp
  qed (use il lp in simp_all)
  moreover have "well_formed ?w'" using wf by (simp add: wf_alt)
  ultimately show ?thesis by (simp add: badurl linv_def)

next
  case (start u)
  from assms have lb: "lbook w" and wf: "well_formed w" by (simp_all add: linv_def)
  note idle = lbook_idle [OF lb start(3)]
  let ?w2 = "dev_log cfg (implicit_reset w)"
  let ?w' = "snd (start_load cfg u ?w2)"
  have b: "bento ?w2 = None" using start(2) by simp
  note f = start_load_fields [OF b, of cfg u]
  have "lbook ?w'"
  proof (rule lbookI)
    fix k assume "in_flight ?w' k"
    with idle(1) have "k = length (injections w)"
      by (auto simp: in_flight_def f nth_append list_all_length less_Suc_eq)
    then show "loaderPromise ?w' = Some k \<and> isLoading ?w' \<and> loadError ?w' = None \<and>
      ld_promise (injections ?w' ! k) = Pending \<and> Suc k = length (injections ?w')"
      by (simp add: f new_injection_def)
  next
    show "\<exists>k<length (injections ?w'). \<not> hasResolved (injections ?w' ! k)"
      by (rule exI [of _ "length (injections w)"]) (simp add: f new_injection_def)
  next
    fix p assume "loaderPromise ?w' = Some p"
    then show "p < length (injections ?w') \<and> (hasResolved (injections ?w' ! p) \<longrightarrow> bento ?w' \<noteq> None)"
      by (auto simp: f new_injection_def)
  next
    fix k b' assume "k < length (injections ?w')" "ld_promise (injections ?w' ! k) = Resolved b'"
    then have "k < length (injections w) \<and> ld_promise (injections w ! k) = Resolved b'"
      by (auto simp: f nth_append new_injection_def less_Suc_eq split: if_splits)
    with lbookD(6) [OF lb, of k b'] start(2) have False by simp
    then show "loadError ?w' = None \<and> bento ?w' \<noteq> None \<and> list_all hasResolved (injections ?w')" ..
  qed (simp_all add: f)
  moreover have "well_formed ?w'" using wf_loadBento [OF wf, of cfg] by (simp add: start)
  ultimately show ?thesis by (simp add: start linv_def)

qed

lemma linv_run_listener:
  assumes "linv w"
  shows "linv (run_listener l w)"

proof (cases "l \<in> set (ready_listeners w)")
  case False
  with assms show ?thesis by (simp add: run_listener_def)

next
  case True
  show ?thesis
  proof (cases l)
    case (WaitReady k)
    with assms show ?thesis by (simp add: run_listener_def linv_view [OF lv_wait_handleReady])
  next
    case (InjReady k)
    from assms have "well_formed w" by (simp add: linv_def)
    with True InjReady have k: "k < length (injections w)" by (simp add: wf_alt)
    with assms InjReady True show ?thesis
      by (simp add: run_listener_def inj_handleReady_def linv_handleError linv_handleSuccess
          split: option.splits)
  qed

qed

lemma linv_fire:
  assumes "linv w" "t \<in> set (timers w)"
  shows "linv (fire t w)"

proof (cases "fst t")
  case (WaitInterval k)
  with assms(1) show ?thesis by (simp add: linv_view [OF lv_fire_wait])

next
  case (InjTimeout k)
  from assms(1) have "well_formed w" by (simp add: linv_def)
  moreover from InjTimeout obtain d where "t = (InjTimeout k, d)" by (cases t) auto
  ultimately have k: "k < length (injections w)" using assms(2) unfolding wf_alt by blast
  from linv_remove_timer [OF assms(1), of t] k show ?thesis
    by (simp add: fire_def InjTimeout inj_timeout_cb_def linv_handleError)

qed

lemma linv_step:
  assumes "linv w" "e = Reset \<longrightarrow> list_all hasResolved (injections w)"
  shows "linv (step e w)"

proof (cases e)
  case (Init cfg)
  with assms(1) show ?thesis by (simp add: step_def linv_loadBento)

next
  case Reset
  with assms have "lbook (resetBento w)" by (simp add: linv_def lbook_reset)
  moreover from assms(1) have "well_formed (resetBento w)" by (simp add: linv_def wf_alt)
  ultimately show ?thesis by (simp add: Reset step_def linv_def)

next
  case (Invoke p a)
  with assms(1) show ?thesis by (simp add: step_def linv_view [OF lv_invoke])

next
  case (Populate b)
  from assms(1) have "well_formed (w\<lparr>bento := Some b\<rparr>)" by (simp add: linv_def wf_alt)
  with assms(1) Populate show ?thesis by (simp add: step_def linv_def lbook_populate)

next
  case (PopulateDollar d)
  with assms(1) show ?thesis by (simp add: step_def)

next
  case Ready
  with assms(1) show ?thesis
    by (simp add: step_def dispatch_ready_invariant [where I = linv] linv_run_listener)

next
  case (ScriptError k)
  show ?thesis
  proof (cases "k < length (injections w) \<and> inj_element (injections w ! k)")
    case True
    from assms(1) have "linv (logline (LogScriptError k) w)" by (simp add: linv_view [OF lv_logline])
    from linv_handleError [OF this] True show ?thesis
      by (simp add: ScriptError step_def script_onerror_def)
  next
    case False
    with assms(1) show ?thesis by (auto simp: ScriptError step_def)
  qed

next
  case (Elapse dt)
  have "linv (elapse dt w)"
  proof (rule elapse_cases [where dt = dt and w = w])
    assume "elapse dt w = w\<lparr>now := now w + dt\<rparr>"
    with assms(1) show ?thesis by simp
  next
    fix t assume t: "t \<in> set (timers w)" and e: "elapse dt w = fire t (w\<lparr>now := max (now w) (snd t)\<rparr>)"
    from assms(1) have "linv (w\<lparr>now := max (now w) (snd t)\<rparr>)" by simp
    from linv_fire [OF this] t show ?thesis by (simp add: e)
  qed
  then show ?thesis by (simp add: Elapse step_def)

qed

lemma linv_run:
  "linv w \<Longrightarrow> no_reset_in_flight es w \<Longrightarrow> linv (run es w)"

proof (induction es arbitrary: w)
  case Nil
  then show ?case by simp

next
  case (Cons e es)
  from Cons.prems have "linv (step e w)" by (simp add: linv_step)
  with Cons show ?case by simp

qed

lemma linv_fresh: "linv (fresh_world host url)"
  unfolding linv_def lbook_def
  by (simp add: wf_fresh) (simp add: fresh_world_def in_flight_def)

text \<open>
  C1, as the code has it. Along every sequence of calls and page events that does not call
  \<^verbatim>\<open>resetBento\<close> while an injection is in flight, at most one injection is in flight.
  In every world such a sequence reaches: with the binding populated, \<^verbatim>\<open>init\<close> resolves
  at once with it and changes nothing; with the binding absent and a stored promise,
  \<^verbatim>\<open>init\<close> returns that stored promise and changes nothing (so no second script
  element), and that promise is the pending one of the injection in flight.
\<close>

theorem one_injection_in_flight:
  assumes "no_reset_in_flight es (fresh_world host url)" and "w = run es (fresh_world host url)"
  shows "(\<forall>i j. in_flight w i \<and> in_flight w j \<longrightarrow> i = j)
       \<and> (\<forall>b. bento w = Some b \<longrightarrow> loadBento cfg w = (Fresh (Resolved b), w))
       \<and> (\<forall>p. bento w = None \<and> loaderPromise w = Some p \<longrightarrow>
              loadBento cfg w = (Stored p, w) \<and> in_flight w p \<and>
              ld_promise (injections w ! p) = Pending)"

proof -
  have inv: "linv w" unfolding assms(2) by (rule linv_run [OF linv_fresh assms(1)])
  then have lb: "lbook w" and hw: "has_window w" by (simp_all add: linv_def well_formed_def)
  have 1: "\<forall>i j. in_flight w i \<and> in_flight w j \<longrightarrow> i = j"
    using lbook_unique [OF lb] by blast
  have 2: "\<forall>b. bento w = Some b \<longrightarrow> loadBento cfg w = (Fresh (Resolved b), w)"
    using hw by (simp add: loadBento_def)
  have 3: "loadBento cfg w = (Stored p, w) \<and> in_flight w p \<and> ld_promise (injections w ! p) = Pending"
    if "bento w = None" "loaderPromise w = Some p" for p
  proof -
    from lbookD(4) [OF lb that(2)] that(1) have "in_flight w p" by (simp add: in_flight_def)
    with lbookD(1) [OF lb this] hw that show ?thesis by (simp add: loadBento_def)
  qed
  from 1 2 3 show ?thesis by blast

qed

theorem one_injection_in_flight_witness:
  "no_reset_in_flight [Init site_abc] page
   \<and> in_flight (run [Init site_abc] page) 0
   \<and> loadBento site_abc (run [Init site_abc] page) = (Stored 0, run [Init site_abc] page)
   \<and> head (run [Init site_abc] page) = [0]"

proof -
  have q: "no_reset_in_flight [Init site_abc] (fresh_world ''example.com'' plain_url)" by simp
  have r: "run [Init site_abc] page = run [Init site_abc] (fresh_world ''example.com'' plain_url)"
    by (simp add: page_def)
  have f: "bento (run [Init site_abc] page) = None" "loaderPromise (run [Init site_abc] page) = Some 0"
    "head (run [Init site_abc] page) = [0]"
    by (simp_all add: model_defs)
  from one_injection_in_flight [OF q r, of site_abc] f q show ?thesis by (simp add: page_def)

qed

text \<open>
  \<^verbatim>\<open>resetBento\<close> clears \<^verbatim>\<open>loaderPromise\<close> and cancels nothing: after \<^verbatim>\<open>init\<close>,
  \<^verbatim>\<open>resetBento\<close>, \<^verbatim>\<open>init\<close> two injections are in flight, with two script elements in
  the document.
\<close>

theorem reset_while_loading_counterexample:
  "in_flight (run [Init site_abc, Reset, Init site_abc] page) 0
   \<and> in_flight (run [Init site_abc, Reset, Init site_abc] page) 1
   \<and> head (run [Init site_abc, Reset, Init site_abc] page) = [0, 1]
   \<and> ready_listeners (run [Init site_abc, Reset, Init site_abc] page) = [InjReady 0, InjReady 1]"
  by (simp add: model_defs)

subsection \<open>Validation of the site identifier\<close>

lemma loadBento_invalid_frame:
  assumes "invalid_siteUuid (siteUuid cfg)"
  shows "injections (snd (loadBento cfg w)) = injections w" "head (snd (loadBento cfg w)) = head w"
    "ready_listeners (snd (loadBento cfg w)) = ready_listeners w" "timers (snd (loadBento cfg w)) = timers w"
  using assms by (cases cfg w rule: loadBento_cases; simp)+

text \<open>
  C5, as the code has it. Take a configuration whose site identifier is missing, empty or
  the string \<^verbatim>\<open>'undefined'\<close>. In no state does \<^verbatim>\<open>init\<close> inject a script or touch the
  document with it. When there is a window, the binding is absent and no promise is stored,
  \<^verbatim>\<open>init\<close> rejects with the configuration error and stores it as the load error.
\<close>

theorem invalid_site_identifier:
  assumes "siteUuid cfg = None \<or> siteUuid cfg = Some [] \<or> siteUuid cfg = Some ''undefined''"
  shows "(has_window w \<and> bento w = None \<and> loaderPromise w = None \<longrightarrow>
            fst (loadBento cfg w) = Fresh (Rejected InvalidSiteUuid) \<and>
            getBentoLoadError (snd (loadBento cfg w)) = Some InvalidSiteUuid)
       \<and> injections (snd (loadBento cfg w)) = injections w
       \<and> head (snd (loadBento cfg w)) = head w
       \<and> ready_listeners (snd (loadBento cfg w)) = ready_listeners w
       \<and> timers (snd (loadBento cfg w)) = timers w"

proof -
  from assms have i: "invalid_siteUuid (siteUuid cfg)" by (auto simp: invalid_siteUuid_def)
  have "fst (loadBento cfg w) = Fresh (Rejected InvalidSiteUuid) \<and>
        getBentoLoadError (snd (loadBento cfg w)) = Some InvalidSiteUuid"
    if "has_window w" "bento w = None" "loaderPromise w = None"
    using that i by (simp add: loadBento_def getBentoLoadError_def)
  with loadBento_invalid_frame [OF i, of w] show ?thesis by blast

qed

theorem invalid_site_identifier_witness:
  "fst (loadBento (site_abc\<lparr>siteUuid := Some []\<rparr>) page) = Fresh (Rejected InvalidSiteUuid)
   \<and> getBentoLoadError (snd (loadBento (site_abc\<lparr>siteUuid := Some []\<rparr>) page)) = Some InvalidSiteUuid
   \<and> head (snd (loadBento (site_abc\<lparr>siteUuid := Some []\<rparr>) page)) = []
   \<and> injections (snd (loadBento (site_abc\<lparr>siteUuid := Some []\<rparr>) page)) = []"

proof -
  have c: "siteUuid (site_abc\<lparr>siteUuid := Some []\<rparr>) = None \<or>
           siteUuid (site_abc\<lparr>siteUuid := Some []\<rparr>) = Some [] \<or>
           siteUuid (site_abc\<lparr>siteUuid := Some []\<rparr>) = Some ''undefined''" by simp
  have p: "has_window page" "bento page = None" "loaderPromise page = None" "head page = []"
    "injections page = []"
    by (simp_all add: page_def fresh_world_def)
  from invalid_site_identifier [OF c, of page] p show ?thesis by simp

qed

text \<open>
  With the binding already populated, or with a load pending, \<^verbatim>\<open>init\<close> returns before it
  looks at the configuration: an empty site identifier is not rejected and no error is
  stored.
\<close>

theorem invalid_site_identifier_counterexample:
  "fst (loadBento (site_abc\<lparr>siteUuid := Some []\<rparr>) (run [Populate []] page)) = Fresh (Resolved [])
   \<and> getBentoLoadError (snd (loadBento (site_abc\<lparr>siteUuid := Some []\<rparr>) (run [Populate []] page))) = None
   \<and> fst (loadBento (site_abc\<lparr>siteUuid := Some []\<rparr>) (run [Init site_abc] page)) = Stored 0
   \<and> getBentoLoadError (snd (loadBento (site_abc\<lparr>siteUuid := Some []\<rparr>) (run [Init site_abc] page))) = None"
  by (simp add: model_defs getBentoLoadError_def)

subsection \<open>The failed state and the way out of it\<close>

lemma failed_idle_view:
  assumes "loader_view w' = loader_view w"
  shows "failed_idle w' = failed_idle w"
  by (simp add: failed_idle_def lv_fields [OF assms])

lemma failed_idle_handleError: "failed_idle w \<Longrightarrow> failed_idle (handleError j e w)"
  by (cases "hasResolved (injections w ! j)") (simp_all add: failed_idle_def handleError_fields)

lemma failed_idle_handleSuccess: "failed_idle w \<Longrightarrow> failed_idle (handleSuccess j b w)"
  by (cases "hasResolved (injections w ! j)")
     (simp_all add: failed_idle_def handleSuccess_fields split: pstate.splits)

lemma failed_idle_loadBento: "failed_idle w \<Longrightarrow> failed_idle (snd (loadBento cfg w))"

proof (cases cfg w rule: loadBento_cases)
  case (start u)
  have b: "bento (dev_log cfg (implicit_reset w)) = None" using start by simp
  show ?thesis by (simp add: start failed_idle_def start_load_fields [OF b])

qed (simp_all add: failed_idle_def implicit_reset_idle)

lemma failed_idle_fire: "failed_idle w \<Longrightarrow> failed_idle (fire t w)"

proof (cases "fst t")
  case (InjTimeout j)
  assume "failed_idle w"
  then have "failed_idle (w\<lparr>timers := removeAll t (timers w)\<rparr>)" by (simp add: failed_idle_def)
  then show ?thesis by (simp add: fire_def InjTimeout inj_timeout_cb_def failed_idle_handleError)

next
  case (WaitInterval j)
  then show "failed_idle w \<Longrightarrow> ?thesis" by (simp add: failed_idle_view [OF lv_fire_wait])

qed

lemma failed_idle_step: "failed_idle w \<Longrightarrow> failed_idle (step e w)"

proof (rule step_invariant [where I = failed_idle])
  fix l s show "failed_idle s \<Longrightarrow> failed_idle (run_listener l s)"
    by (cases l)
       (auto simp: run_listener_def inj_handleReady_def failed_idle_handleError failed_idle_handleSuccess
          failed_idle_view [OF lv_wait_handleReady] split: option.splits)

next
  fix k s assume "failed_idle s"
  then have "failed_idle (logline (LogScriptError k) s)" by (simp add: failed_idle_view [OF lv_logline])
  then show "failed_idle (script_onerror k s)" unfolding script_onerror_def by (rule failed_idle_handleError)

next
  fix dt and s :: world assume s: "failed_idle s"
  have n: "failed_idle (s\<lparr>now := n\<rparr>)" for n using s by (simp add: failed_idle_def)
  show "failed_idle (elapse dt s)"
    by (rule elapse_cases [where dt = dt and w = s]) (simp_all add: n failed_idle_fire)

qed (simp_all add: failed_idle_loadBento failed_idle_view [OF lv_invoke], simp_all add: failed_idle_def)

lemma failed_idle_run: "failed_idle (run es (fresh_world host url))"
  by (rule run_invariant [where I = failed_idle])
     (simp_all add: failed_idle_step, simp add: failed_idle_def fresh_world_def)

lemma generic_invoke_failed:
  assumes "has_window w" "p \<noteq> ''init''" "p \<noteq> ''getEmail''" "p \<noteq> ''spamCheck''" "loadError w = Some e"
  shows "invoke p args w = (Ret JUndefined, w\<lparr>console := console w @ [LogCannotCall p e, LogMayNeedReset]\<rparr>)"
  using assms by (simp add: invoke_def proxy_get_def generic_fn_def logline_def)

lemma generic_invoke_waits:
  assumes "has_window w" "p \<noteq> ''init''" "p \<noteq> ''getEmail''" "p \<noteq> ''spamCheck''" "loadError w = None"
  shows "invoke p args w = (Ret JUndefined, snd (waitForMethod p (Dispatch args) w))"
  using assms by (simp add: invoke_def proxy_get_def generic_fn_def)

lemma waits_cleanup_wait [simp]: "waits (cleanup_wait k w) = waits w"
  by (simp add: cleanup_wait_def)

lemma waits_upd_wait [simp]: "waits (upd_wait k f w) = (waits w)[k := f (waits w ! k)]"
  by (simp add: upd_wait_def)

lemma length_waits_on_settled [simp]: "length (waits (on_settled k st w)) = length (waits w)"
  by (simp add: on_settled_def Let_def split: cont.splits pstate.splits option.splits slot.splits outcome.splits)

lemma length_waits_settle_wait [simp]: "length (waits (settle_wait k st w)) = length (waits w)"
  by (simp add: settle_wait_def)

lemma length_waits_checkMethod [simp]: "length (waits (checkMethod k w)) = length (waits w)"
  by (simp add: checkMethod_def Let_def split: option.splits)

lemma length_waits_waitForMethod [simp]:
  "length (waits (snd (waitForMethod m c w))) = Suc (length (waits w))"
  by (simp add: waitForMethod_def Let_def split: option.splits)

text \<open>
  C7, as the code has it. Take a world a page reaches in which an error is stored. A
  generic call logs its two diagnostics and does nothing else: no wait is registered and
  nothing reaches the binding. \<^verbatim>\<open>resetBento\<close>, in any world, empties
  \<^verbatim>\<open>loaderPromise\<close> and \<^verbatim>\<open>loadError\<close> and clears \<^verbatim>\<open>isLoading\<close>. With the binding
  absent, \<^verbatim>\<open>init\<close> with a configuration that passes validation and URL construction
  resets first and starts a new load: afterwards no error is stored, the new injection is
  in flight and stored, and a generic call registers its wait instead of being dropped.
\<close>

theorem failed_state:
  assumes "w = run es (fresh_world host url)" and "loadError w = Some e"
    and "p \<noteq> ''init''" and "p \<noteq> ''getEmail''" and "p \<noteq> ''spamCheck''"
  shows "invoke p args w = (Ret JUndefined, w\<lparr>console := console w @ [LogCannotCall p e, LogMayNeedReset]\<rparr>)
       \<and> loaderPromise (resetBento w') = None \<and> getBentoLoadError (resetBento w') = None
       \<and> \<not> isBentoLoading (resetBento w')
       \<and> (bento w = None \<and> \<not> invalid_siteUuid (siteUuid cfg) \<and> script_url cfg w = Some u \<longrightarrow>
            loadBento cfg w = start_load cfg u (dev_log cfg (resetBento w))
          \<and> getBentoLoadError (snd (loadBento cfg w)) = None
          \<and> loaderPromise (snd (loadBento cfg w)) = Some (length (injections w))
          \<and> in_flight (snd (loadBento cfg w)) (length (injections w))
          \<and> invoke p args (snd (loadBento cfg w))
              = (Ret JUndefined, snd (waitForMethod p (Dispatch args) (snd (loadBento cfg w))))
          \<and> length (waits (snd (invoke p args (snd (loadBento cfg w))))) = Suc (length (waits w)))"

proof -
  have wf: "well_formed w" unfolding assms(1) by (rule wf_run [OF wf_fresh])
  then have hw: "has_window w" by (simp add: well_formed_def)
  have "failed_idle w" unfolding assms(1) by (rule failed_idle_run)
  with assms(2) have lp: "loaderPromise w = None" by (simp add: failed_idle_def)
  have 1: "invoke p args w = (Ret JUndefined, w\<lparr>console := console w @ [LogCannotCall p e, LogMayNeedReset]\<rparr>)"
    by (rule generic_invoke_failed [OF hw assms(3,4,5,2)])
  have 2: "loaderPromise (resetBento w') = None \<and> getBentoLoadError (resetBento w') = None
       \<and> \<not> isBentoLoading (resetBento w')"
    by (simp add: getBentoLoadError_def isBentoLoading_def)
  have 3: "loadBento cfg w = start_load cfg u (dev_log cfg (resetBento w))
          \<and> getBentoLoadError (snd (loadBento cfg w)) = None
          \<and> loaderPromise (snd (loadBento cfg w)) = Some (length (injections w))
          \<and> in_flight (snd (loadBento cfg w)) (length (injections w))
          \<and> invoke p args (snd (loadBento cfg w))
              = (Ret JUndefined, snd (waitForMethod p (Dispatch args) (snd (loadBento cfg w))))
          \<and> length (waits (snd (invoke p args (snd (loadBento cfg w))))) = Suc (length (waits w))"
    if h: "bento w = None" "\<not> invalid_siteUuid (siteUuid cfg)" "script_url cfg w = Some u"
  proof -
    let ?w2 = "dev_log cfg (resetBento w)"
    have ir: "implicit_reset w = resetBento w" using assms(2) by (simp add: implicit_reset_def)
    have su: "script_url cfg ?w2 = Some u" using script_url_frame [of cfg w] h(3) by (simp add: ir)
    have lb: "loadBento cfg w = start_load cfg u ?w2"
      using hw h lp su by (simp add: loadBento_def ir)
    have b: "bento ?w2 = None" using h(1) by simp
    note f = start_load_fields [OF b, of cfg u]
    let ?w' = "snd (loadBento cfg w)"
    have le: "loadError ?w' = None" and hw': "has_window ?w'" and wl: "waits ?w' = waits w"
      by (simp_all add: lb f hw)
    have inv: "invoke p args ?w' = (Ret JUndefined, snd (waitForMethod p (Dispatch args) ?w'))"
      by (rule generic_invoke_waits [OF hw' assms(3,4,5) le])
    show ?thesis
      using inv by (simp add: lb f getBentoLoadError_def in_flight_def new_injection_def)
  qed
  from 1 2 3 show ?thesis by blast

qed

theorem failed_state_witness:
  "loadError (run [Init (site_abc\<lparr>timeout := Some 5000\<rparr>), Elapse 5000] page) = Some (LoadTimeout 5000)
   \<and> console (snd (invoke ''track'' [JStr ''x'']
        (run [Init (site_abc\<lparr>timeout := Some 5000\<rparr>), Elapse 5000] page)))
       = [LogFailedToLoad (LoadTimeout 5000), LogCannotCall ''track'' (LoadTimeout 5000), LogMayNeedReset]
   \<and> getBentoLoadError (snd (loadBento site_abc
        (run [Init (site_abc\<lparr>timeout := Some 5000\<rparr>), Elapse 5000] page))) = None
   \<and> in_flight (snd (loadBento site_abc
        (run [Init (site_abc\<lparr>timeout := Some 5000\<rparr>), Elapse 5000] page))) 1
   \<and> calls (run [Init (site_abc\<lparr>timeout := Some 5000\<rparr>), Elapse 5000, Init site_abc,
               Populate [(''track'', Fn (Returns JUndefined))], Ready, Invoke ''track'' [JStr ''x'']] page)
       = [(''track'', [JStr ''x''])]"

proof -
  define w where "w = run [Init (site_abc\<lparr>timeout := Some 5000\<rparr>), Elapse 5000] page"
  have r: "w = run [Init (site_abc\<lparr>timeout := Some 5000\<rparr>), Elapse 5000] (fresh_world ''example.com'' plain_url)"
    by (simp add: w_def page_def)
  have e: "loadError w = Some (LoadTimeout 5000)" unfolding w_def by (simp add: model_defs)
  have n: "''track'' \<noteq> ''init''" "''track'' \<noteq> ''getEmail''" "''track'' \<noteq> ''spamCheck''" by simp_all
  have h: "bento w = None \<and> \<not> invalid_siteUuid (siteUuid site_abc) \<and>
    script_url site_abc w = Some ''https://fast.bentonow.com?site_uuid=abc''"
    unfolding w_def by (simp add: model_defs)
  have l: "length (injections w) = 1" and c0: "console w = [LogFailedToLoad (LoadTimeout 5000)]"
    unfolding w_def by (simp_all add: model_defs)
  note t = failed_state [OF r e n, of "[JStr ''x'']" w site_abc "''https://fast.bentonow.com?site_uuid=abc''"]
  from t have "invoke ''track'' [JStr ''x''] w
      = (Ret JUndefined, w\<lparr>console := console w @ [LogCannotCall ''track'' (LoadTimeout 5000), LogMayNeedReset]\<rparr>)"
    by (rule conjunct1)
  then have 1: "console (snd (invoke ''track'' [JStr ''x''] w))
      = [LogFailedToLoad (LoadTimeout 5000), LogCannotCall ''track'' (LoadTimeout 5000), LogMayNeedReset]"
    by (simp add: c0)
  from t h have 2: "getBentoLoadError (snd (loadBento site_abc w)) = None"
    and 3: "in_flight (snd (loadBento site_abc w)) (length (injections w))"
    by blast+
  have 4: "calls (run [Init (site_abc\<lparr>timeout := Some 5000\<rparr>), Elapse 5000, Init site_abc,
               Populate [(''track'', Fn (Returns JUndefined))], Ready, Invoke ''track'' [JStr ''x'']] page)
       = [(''track'', [JStr ''x''])]"
    by (simp add: model_defs)
  from e 1 2 3 4 show ?thesis unfolding l unfolding w_def by blast

qed

text \<open>
  With an error stored and the binding populated (the vendor's script arrived after the
  timeout), \<^verbatim>\<open>init\<close> returns the binding at once and resets nothing: the error stays
  stored and the next generic call is still dropped.
\<close>

theorem failed_state_counterexample:
  "loadError (run [Init (site_abc\<lparr>timeout := Some 5000\<rparr>), Elapse 5000,
                   Populate [(''track'', Fn (Returns JUndefined))]] page) = Some (LoadTimeout 5000)
   \<and> fst (loadBento site_abc (run [Init (site_abc\<lparr>timeout := Some 5000\<rparr>), Elapse 5000,
                   Populate [(''track'', Fn (Returns JUndefined))]] page))
       = Fresh (Resolved [(''track'', Fn (Returns JUndefined))])
   \<and> loadError (run [Init (site_abc\<lparr>timeout := Some 5000\<rparr>), Elapse 5000,
                   Populate [(''track'', Fn (Returns JUndefined))], Init site_abc] page)
       = Some (LoadTimeout 5000)
   \<and> calls (run [Init (site_abc\<lparr>timeout := Some 5000\<rparr>), Elapse 5000,
                   Populate [(''track'', Fn (Returns JUndefined))], Init site_abc,
                   Invoke ''track'' [JStr ''x'']] page) = []
   \<and> waits (run [Init (site_abc\<lparr>timeout := Some 5000\<rparr>), Elapse 5000,
                   Populate [(''track'', Fn (Returns JUndefined))], Init site_abc,
                   Invoke ''track'' [JStr ''x'']] page) = []"
  by (simp add: model_defs)

subsection \<open>Failures of a dispatched call\<close>

lemma failure_logged_mono:
  "set con \<subseteq> set con' \<Longrightarrow> failure_logged con x \<Longrightarrow> failure_logged con' x"
  by (auto simp: failure_logged_def split: cont.splits pstate.splits option.splits slot.splits outcome.splits)

lemma swallowed_mono: "set con \<subseteq> set con' \<Longrightarrow> swallowed con x \<Longrightarrow> swallowed con' x"
  by (auto simp: swallowed_def intro: failure_logged_mono)

lemma winv_frame:
  assumes "winv w" "waits w' = waits w" "set (console w) \<subseteq> set (console w')"
  shows "winv w'"
  using assms swallowed_mono [OF assms(3)] by (auto simp: winv_def list_all_iff)

lemma list_all_update:
  "list_all Q xs \<Longrightarrow> (k < length xs \<Longrightarrow> Q v) \<Longrightarrow> list_all Q (xs[k := v])"
  by (cases "k < length xs") (auto simp: list_all_length nth_list_update)

lemma list_all_update_again:
  assumes "list_all Q (xs[k := x])" "Q v"
  shows "list_all Q (xs[k := v])"
  unfolding list_all_length

proof (intro allI impI)
  fix n assume n: "n < length (xs[k := v])"
  show "Q (xs[k := v] ! n)"
  proof (cases "n = k")
    case True
    with n assms(2) show ?thesis by simp
  next
    case False
    from n assms(1) have "Q (xs[k := x] ! n)" unfolding list_all_length by simp
    with False show ?thesis by simp
  qed

qed

lemma update_same: "xs ! k = v \<Longrightarrow> xs[k := v] = xs"
  by auto

lemma console_on_settled: "set (console w) \<subseteq> set (console (on_settled k st w))"
  by (auto simp: on_settled_def Let_def upd_wait_def logline_def
        split: cont.splits pstate.splits option.splits slot.splits outcome.splits)

text \<open>Running the consumer on a record that holds the settled state of its wait.\<close>

lemma winv_on_settled:
  assumes "list_all (swallowed (console w)) ((waits w)[k := x])"
    and "k < length (waits w) \<longrightarrow> waits w ! k = x\<lparr>w_promise := st, w_out := Pending\<rparr>"
  shows "winv (on_settled k st w)"

proof (cases "k < length (waits w)")
  case False
  then have "waits (on_settled k st w) = waits w"
    by (simp add: on_settled_def Let_def upd_wait_def logline_def list_update_beyond not_less
        split: cont.splits pstate.splits option.splits slot.splits outcome.splits)
  moreover from False assms(1) have "list_all (swallowed (console w)) (waits w)"
    by (simp add: list_update_beyond not_less)
  ultimately show ?thesis
    using console_on_settled [of w k st] swallowed_mono
    by (auto simp: winv_def list_all_iff)

next
  case True
  with assms(2) have xk: "waits w ! k = x\<lparr>w_promise := st, w_out := Pending\<rparr>" by simp
  let ?w' = "on_settled k st w"
  obtain v where wv: "waits ?w' = (waits w)[k := (waits w ! k)\<lparr>w_out := v\<rparr>]"
    and sv: "swallowed (console ?w') ((waits w ! k)\<lparr>w_out := v\<rparr>)"
  proof (cases "w_cont x")
    case (Dispatch args)
    show ?thesis
    proof (cases st)
      case Pending
      with Dispatch xk True show ?thesis
        by (intro that [of Pending])
           (simp_all add: on_settled_def swallowed_def chain_end_def failure_logged_def update_same)
    next
      case (Resolved api)
      with Dispatch xk True show ?thesis
        by (intro that [of "Resolved JUndefined"])
           (auto simp: on_settled_def Let_def swallowed_def chain_end_def failure_logged_def upd_wait_def logline_def
              split: option.splits slot.splits outcome.splits)
    next
      case (Rejected e)
      with Dispatch xk True show ?thesis
        by (intro that [of "Resolved JUndefined"])
           (auto simp: on_settled_def Let_def swallowed_def chain_end_def failure_logged_def upd_wait_def logline_def)
    qed
  next
    case (SpamCheck email)
    show ?thesis
    proof (cases st)
      case Pending
      with SpamCheck xk True show ?thesis
        by (intro that [of Pending])
           (simp_all add: on_settled_def swallowed_def chain_end_def failure_logged_def update_same)
    next
      case (Resolved api)
      with SpamCheck xk True show ?thesis
        by (intro that [of "chain_end (waits w ! k)"])
           (auto simp: on_settled_def Let_def swallowed_def chain_end_def failure_logged_def upd_wait_def
              split: option.splits slot.splits outcome.splits)
    next
      case (Rejected e)
      with SpamCheck xk True show ?thesis
        by (intro that [of "Rejected e"])
           (auto simp: on_settled_def Let_def swallowed_def chain_end_def failure_logged_def upd_wait_def)
    qed
  qed
  have "list_all (swallowed (console ?w')) ((waits w)[k := x])"
    using assms(1) swallowed_mono [OF console_on_settled [of w k st]]
    by (auto simp: list_all_iff)
  from list_all_update_again [OF this sv] show ?thesis by (simp add: winv_def wv)

qed

lemma winv_settle_wait:
  assumes "winv w"
  shows "winv (settle_wait k st w)"

proof (cases "w_promise (waits w ! k) \<noteq> Pending")
  case True
  with assms show ?thesis by (simp add: settle_wait_def)

next
  case False
  let ?w1 = "upd_wait k (\<lambda>x. x\<lparr>w_promise := st\<rparr>) w"
  have 1: "list_all (swallowed (console ?w1)) ((waits ?w1)[k := waits w ! k])"
    using assms by (simp add: winv_def upd_wait_def)
  have 2: "k < length (waits ?w1) \<longrightarrow> waits ?w1 ! k = (waits w ! k)\<lparr>w_promise := st, w_out := Pending\<rparr>"
  proof
    assume "k < length (waits ?w1)"
    then have k: "k < length (waits w)" by simp
    with assms have "swallowed (console w) (waits w ! k)" by (simp add: winv_def list_all_length)
    with False have "w_out (waits w ! k) = Pending" by (simp add: swallowed_def chain_end_def)
    with k show "waits ?w1 ! k = (waits w ! k)\<lparr>w_promise := st, w_out := Pending\<rparr>" by simp
  qed
  from winv_on_settled [OF 1 2] False show ?thesis by (simp add: settle_wait_def)

qed

lemma swallowed_attempts [simp]: "swallowed con (x\<lparr>attempts := n\<rparr>) = swallowed con x"
  by (simp add: swallowed_def chain_end_def failure_logged_def cong: pstate.case_cong cont.case_cong)

lemma winv_checkMethod:
  assumes "winv w"
  shows "winv (checkMethod k w)"

proof -
  let ?w1 = "upd_wait k (\<lambda>x. x\<lparr>attempts := attempts x + 1\<rparr>) w"
  from assms have a: "list_all (swallowed (console w)) (waits w)" by (simp add: winv_def)
  then have "list_all (swallowed (console w))
      ((waits w)[k := (waits w ! k)\<lparr>attempts := attempts (waits w ! k) + 1\<rparr>])"
    using a by (intro list_all_update) (simp_all add: list_all_length)
  then have w1: "winv ?w1" by (simp add: winv_def upd_wait_def)
  have c: "winv (cleanup_wait k ?w1)"
    by (rule winv_frame [OF w1]) (simp_all add: cleanup_wait_def)
  have l: "winv (logline l (cleanup_wait k ?w1))" for l
    by (rule winv_frame [OF c]) auto
  show ?thesis
    using w1 c l
    by (simp add: checkMethod_def Let_def winv_settle_wait split: option.splits)

qed

lemma winv_wait_handleReady:
  assumes "winv w"
  shows "winv (wait_handleReady k w)"

proof -
  have "winv (cleanup_wait k w)" by (rule winv_frame [OF assms]) (simp_all add: cleanup_wait_def)
  then show ?thesis unfolding wait_handleReady_def by (rule winv_checkMethod)

qed

lemma swallowed_new_wait [simp]: "swallowed con (new_wait m c Pending)"
  by (simp add: swallowed_def chain_end_def failure_logged_def new_wait_def split: cont.splits)

lemma winv_waitForMethod:
  assumes "winv w"
  shows "winv (snd (waitForMethod m c w))"

proof -
  let ?k = "length (waits w)"
  have settled: "winv (on_settled ?k st (w\<lparr>waits := waits w @ [new_wait m c st]\<rparr>))" for st
  proof (rule winv_on_settled [where x = "new_wait m c Pending"])
    show "list_all (swallowed (console (w\<lparr>waits := waits w @ [new_wait m c st]\<rparr>)))
            ((waits (w\<lparr>waits := waits w @ [new_wait m c st]\<rparr>))[?k := new_wait m c Pending])"
      using assms by (simp add: winv_def)
    show "?k < length (waits (w\<lparr>waits := waits w @ [new_wait m c st]\<rparr>)) \<longrightarrow>
          waits (w\<lparr>waits := waits w @ [new_wait m c st]\<rparr>) ! ?k
            = (new_wait m c Pending)\<lparr>w_promise := st, w_out := Pending\<rparr>"
      by (simp add: new_wait_def)
  qed
  have "winv (w\<lparr>waits := waits w @ [new_wait m c Pending],
                ready_listeners := ready_listeners w @ [WaitReady ?k],
                timers := timers w @ [(WaitInterval ?k, now w + 100)]\<rparr>)"
    using assms by (simp add: winv_def)
  from winv_checkMethod [OF this] settled show ?thesis
    by (simp add: waitForMethod_def Let_def split: option.splits)

qed

lemma winv_invoke: "winv w \<Longrightarrow> winv (snd (invoke p args w))"

proof -
  assume a: "winv w"
  have g: "winv (logline l w)" for l by (rule winv_frame [OF a]) auto
  have g2: "winv (logline l' (logline l w))" for l l' by (rule winv_frame [OF a]) auto
  have c: "winv (w\<lparr>calls := cs\<rparr>)" for cs using a by (simp add: winv_def)
  show ?thesis
    using a g2 c
    by (simp add: invoke_def getEmail_fn_def spamCheck_fn_def generic_fn_def split_beta Let_def
        winv_waitForMethod split: handler.splits option.splits slot.splits outcome.splits)

qed

lemma console_load_then: "set (console w) \<subseteq> set (console (load_then k api w))"
  by (auto simp: load_then_def Let_def split_beta call_dollar_def view_callback_def
        split: option.splits dollar.splits slot.splits if_splits)

lemma handler_waits_console:
  "waits (handleError k e w) = waits w" "set (console w) \<subseteq> set (console (handleError k e w))"
  "waits (handleSuccess k api w) = waits w" "set (console w) \<subseteq> set (console (handleSuccess k api w))"

proof -
  show "waits (handleError k e w) = waits w" "set (console w) \<subseteq> set (console (handleError k e w))"
    by (cases "hasResolved (injections w ! k)"; auto simp: handleError_fields)+
  show "waits (handleSuccess k api w) = waits w"
    by (cases "hasResolved (injections w ! k)") (simp_all add: handleSuccess_fields)
  show "set (console w) \<subseteq> set (console (handleSuccess k api w))"
    using console_load_then [of "upd_inj k (\<lambda>r. r\<lparr>inj_promise := Resolved api\<rparr>)
               (cleanup_inj k False (upd_inj k (\<lambda>r. r\<lparr>hasResolved := True\<rparr>) w))" k api]
    by (simp add: handleSuccess_def)

qed

lemma winv_handlers:
  "winv w \<Longrightarrow> winv (handleError k e w)" "winv w \<Longrightarrow> winv (handleSuccess k api w)"
  by (erule winv_frame; simp add: handler_waits_console)+

lemma console_dev_log: "set (console w) \<subseteq> set (console (dev_log cfg (implicit_reset w)))"
  by (auto simp: dev_log_def)

lemma winv_loadBento:
  assumes "winv w"
  shows "winv (snd (loadBento cfg w))"

proof (cases cfg w rule: loadBento_cases)
  case (start u)
  have b: "bento (dev_log cfg (implicit_reset w)) = None" using start by simp
  show ?thesis
    by (rule winv_frame [OF assms])
       (simp_all add: start start_load_fields [OF b] console_dev_log)

next
  case invalid
  show ?thesis by (rule winv_frame [OF assms]) (simp_all add: invalid)

next
  case (badurl e)
  show ?thesis by (rule winv_frame [OF assms]) (simp_all add: badurl console_dev_log)

next
  case (same res)
  with assms show ?thesis by simp

qed

lemma winv_fire: "winv w \<Longrightarrow> winv (fire t w)"

proof (cases "fst t")
  case (InjTimeout j)
  assume "winv w"
  then have "winv (w\<lparr>timers := removeAll t (timers w)\<rparr>)" by (simp add: winv_def)
  then show ?thesis by (simp add: fire_def InjTimeout inj_timeout_cb_def winv_handlers)

next
  case (WaitInterval j)
  assume "winv w"
  then have "winv (w\<lparr>timers := map (\<lambda>u. if u = t then (fst t, snd t + 100) else u) (timers w)\<rparr>)"
    by (simp add: winv_def)
  then show ?thesis by (simp add: fire_def WaitInterval winv_checkMethod)

qed

lemma winv_step: "winv w \<Longrightarrow> winv (step e w)"

proof (rule step_invariant [where I = winv])
  fix l s show "winv s \<Longrightarrow> winv (run_listener l s)"
    by (cases l)
       (auto simp: run_listener_def inj_handleReady_def winv_handlers winv_wait_handleReady
          split: option.splits)

next
  fix k s assume "winv s"
  then have "winv (logline (LogScriptError k) s)" by (rule winv_frame) auto
  then show "winv (script_onerror k s)" unfolding script_onerror_def by (rule winv_handlers)

next
  fix dt and s :: world assume s: "winv s"
  have n: "winv (s\<lparr>now := n\<rparr>)" for n using s by (simp add: winv_def)
  show "winv (elapse dt s)"
    by (rule elapse_cases [where dt = dt and w = s]) (simp_all add: n winv_fire)

qed (simp_all add: winv_loadBento winv_invoke, simp_all add: winv_def)

lemma winv_run: "winv (run es (fresh_world host url))"
  by (rule run_invariant [where I = winv]) (simp_all add: winv_step, simp add: winv_def fresh_world_def)

text \<open>
  C4. In every world a page reaches, a generic call returns \<^verbatim>\<open>undefined\<close> to its caller
  at once. The promise at the end of a generic call's chain is never rejected: it is
  pending while the wait is, and resolved with \<^verbatim>\<open>undefined\<close> however the wait settled.
  When the wait was rejected (the bound expired, or the load failed) its error is on the
  console, and so is the exception of a method that threw; with an error stored at call
  time the two diagnostics are logged instead. \<^verbatim>\<open>spamCheck\<close> returns the promise of its
  wrapper, and a rejection of its wait is the rejection of that promise.
\<close>

theorem dispatch_failures_swallowed:
  assumes "w = run es (fresh_world host url)"
    and "p \<noteq> ''init''" and "p \<noteq> ''getEmail''" and "p \<noteq> ''spamCheck''"
  shows "fst (invoke p args w) = Ret JUndefined
       \<and> (\<forall>x\<in>set (waits w). w_out x = chain_end x \<and> failure_logged (console w) x)
       \<and> (\<forall>x\<in>set (waits w). \<forall>a e. w_cont x = Dispatch a \<longrightarrow> w_out x \<noteq> Rejected e)
       \<and> (\<forall>e. loadError w = Some e \<longrightarrow>
              console (snd (invoke p args w)) = console w @ [LogCannotCall p e, LogMayNeedReset])
       \<and> fst (invoke ''spamCheck'' args w) = RetPromise (length (waits w))
       \<and> (\<forall>x\<in>set (waits w). \<forall>em e. w_cont x = SpamCheck em \<and> w_promise x = Rejected e \<longrightarrow>
              w_out x = Rejected e)"

proof -
  have "well_formed w" unfolding assms(1) by (rule wf_run [OF wf_fresh])
  then have hw: "has_window w" by (simp add: well_formed_def)
  have "winv w" unfolding assms(1) by (rule winv_run)
  then have sw: "\<forall>x\<in>set (waits w). w_out x = chain_end x \<and> failure_logged (console w) x"
    by (simp add: winv_def list_all_iff swallowed_def)
  have 1: "fst (invoke p args w) = Ret JUndefined"
    using assms(2,3,4) by (simp add: invoke_def proxy_get_def generic_fn_def split: option.splits)
  have 3: "\<forall>x\<in>set (waits w). \<forall>a e. w_cont x = Dispatch a \<longrightarrow> w_out x \<noteq> Rejected e"
    using sw by (auto simp: chain_end_def split: pstate.splits)
  have 4: "\<forall>e. loadError w = Some e \<longrightarrow>
              console (snd (invoke p args w)) = console w @ [LogCannotCall p e, LogMayNeedReset]"
    using generic_invoke_failed [OF hw assms(2,3,4)] by simp
  have 5: "fst (invoke ''spamCheck'' args w) = RetPromise (length (waits w))"
    using hw by (simp add: invoke_def proxy_get_def spamCheck_fn_def split_beta Let_def waitForMethod_def
        split: option.splits)
  have 6: "\<forall>x\<in>set (waits w). \<forall>em e. w_cont x = SpamCheck em \<and> w_promise x = Rejected e \<longrightarrow>
              w_out x = Rejected e"
    using sw by (auto simp: chain_end_def)
  from 1 sw 3 4 5 6 show ?thesis by blast

qed

theorem dispatch_failures_swallowed_witness:
  "waits (run [Invoke ''track'' [JStr ''x''], Invoke ''spamCheck'' [JStr ''a@b.c''],
               Init (site_abc\<lparr>siteUuid := Some []\<rparr>), Elapse 100, Elapse 100] page)
     = [\<lparr>w_method = ''track'', attempts = 2,
         w_promise = Rejected (BentoFailedToLoad ''track'' InvalidSiteUuid),
         w_cont = Dispatch [JStr ''x''], w_out = Resolved JUndefined\<rparr>,
        \<lparr>w_method = ''spamCheck'', attempts = 2,
         w_promise = Rejected (BentoFailedToLoad ''spamCheck'' InvalidSiteUuid),
         w_cont = SpamCheck (JStr ''a@b.c''),
         w_out = Rejected (BentoFailedToLoad ''spamCheck'' InvalidSiteUuid)\<rparr>]
   \<and> LogMessage (BentoFailedToLoad ''track'' InvalidSiteUuid)
       \<in> set (console (run [Invoke ''track'' [JStr ''x''], Invoke ''spamCheck'' [JStr ''a@b.c''],
               Init (site_abc\<lparr>siteUuid := Some []\<rparr>), Elapse 100, Elapse 100] page))
   \<and> fst (invoke ''track'' [JStr ''y''] (run [Invoke ''track'' [JStr ''x''], Invoke ''spamCheck'' [JStr ''a@b.c''],
               Init (site_abc\<lparr>siteUuid := Some []\<rparr>), Elapse 100, Elapse 100] page)) = Ret JUndefined"

proof -
  define w where "w = run [Invoke ''track'' [JStr ''x''], Invoke ''spamCheck'' [JStr ''a@b.c''],
               Init (site_abc\<lparr>siteUuid := Some []\<rparr>), Elapse 100, Elapse 100] page"
  have r: "w = run [Invoke ''track'' [JStr ''x''], Invoke ''spamCheck'' [JStr ''a@b.c''],
               Init (site_abc\<lparr>siteUuid := Some []\<rparr>), Elapse 100, Elapse 100]
               (fresh_world ''example.com'' plain_url)"
    by (simp add: w_def page_def)
  have n: "''track'' \<noteq> ''init''" "''track'' \<noteq> ''getEmail''" "''track'' \<noteq> ''spamCheck''" by simp_all
  have ws: "waits w
     = [\<lparr>w_method = ''track'', attempts = 2,
         w_promise = Rejected (BentoFailedToLoad ''track'' InvalidSiteUuid),
         w_cont = Dispatch [JStr ''x''], w_out = Resolved JUndefined\<rparr>,
        \<lparr>w_method = ''spamCheck'', attempts = 2,
         w_promise = Rejected (BentoFailedToLoad ''spamCheck'' InvalidSiteUuid),
         w_cont = SpamCheck (JStr ''a@b.c''),
         w_out = Rejected (BentoFailedToLoad ''spamCheck'' InvalidSiteUuid)\<rparr>]"
    unfolding w_def by (simp add: model_defs)
  note t = dispatch_failures_swallowed [OF r n, of "[JStr ''y'']"]
  from t have 1: "fst (invoke ''track'' [JStr ''y''] w) = Ret JUndefined" by (rule conjunct1)
  from t have "\<forall>x\<in>set (waits w). w_out x = chain_end x \<and> failure_logged (console w) x" by blast
  then have 2: "LogMessage (BentoFailedToLoad ''track'' InvalidSiteUuid) \<in> set (console w)"
    by (simp add: ws failure_logged_def)
  from ws 2 1 show ?thesis unfolding w_def by blast

qed

subsection \<open>The load error and the loading flag follow the load promise\<close>

lemma tracked_frame:
  assumes "injections w' = injections w" "loadError w' = loadError w"
  shows "tracked w' k = tracked w k"
  by (simp add: tracked_def in_flight_def assms)

lemma tracked_view:
  assumes "loader_view w' = loader_view w"
  shows "tracked w' k = tracked w k"
  by (simp add: tracked_def in_flight_def lv_fields [OF assms])

lemma settled_when_idle:
  assumes "linv w" "j < length (injections w)"
    and "loadError w \<noteq> None \<or> (\<exists>k b. k < length (injections w) \<and> ld_promise (injections w ! k) = Resolved b)"
  shows "hasResolved (injections w ! j)"

proof (rule ccontr)
  assume "\<not> hasResolved (injections w ! j)"
  with assms(2) have f: "in_flight w j" by (simp add: in_flight_def)
  from assms(1) have lb: "lbook w" by (simp add: linv_def)
  from lbookD(1) [OF lb f] have "loadError w = None" by simp
  moreover have "\<not> (\<exists>k b. k < length (injections w) \<and> ld_promise (injections w ! k) = Resolved b)"
  proof
    assume "\<exists>k b. k < length (injections w) \<and> ld_promise (injections w ! k) = Resolved b"
    then obtain k b where "k < length (injections w)" "ld_promise (injections w ! k) = Resolved b" by blast
    from lbookD(6) [OF lb this] f show False by (simp add: none_in_flight)
  qed
  ultimately show False using assms(3) by blast

qed

lemma tracked_settled:
  assumes "linv w" "tracked w k" "\<not> in_flight w k" "j < length (injections w)"
  shows "hasResolved (injections w ! j)"
  using settled_when_idle [OF assms(1,4)] assms(2,3) by (auto simp: tracked_def)

lemma tracked_handleError:
  assumes "linv w" "tracked w k" "j < length (injections w)"
  shows "tracked (handleError j e w) k"

proof (cases "hasResolved (injections w ! j)")
  case True
  with assms(2) show ?thesis by simp

next
  case False
  with assms(3) have fj: "in_flight w j" by (simp add: in_flight_def)
  from tracked_settled [OF assms(1,2) _ assms(3)] False have fk: "in_flight w k" by blast
  from assms(1) have "lbook w" by (simp add: linv_def)
  from lbook_unique [OF this fj fk] have jk: "j = k" .
  from False jk have nr: "\<not> hasResolved (injections w ! k)" by simp
  from assms(3) jk have k: "k < length (injections w)" by simp
  show ?thesis unfolding jk using k by (simp add: tracked_def handleError_fields [OF nr])

qed

lemma tracked_handleSuccess:
  assumes "linv w" "tracked w k" "j < length (injections w)"
  shows "tracked (handleSuccess j b w) k"

proof (cases "hasResolved (injections w ! j)")
  case True
  with assms(2) show ?thesis by simp

next
  case False
  with assms(3) have fj: "in_flight w j" by (simp add: in_flight_def)
  from tracked_settled [OF assms(1,2) _ assms(3)] False have fk: "in_flight w k" by blast
  from assms(1) have "lbook w" by (simp add: linv_def)
  from lbook_unique [OF this fj fk] have jk: "j = k" .
  from False jk have nr: "\<not> hasResolved (injections w ! k)" by simp
  from assms(3) jk have k: "k < length (injections w)" by simp
  show ?thesis unfolding jk using k then_result_cases [of k b w]
    by (auto simp: tracked_def handleSuccess_fields [OF nr])

qed

lemma accounted_view:
  assumes "loader_view w' = loader_view w"
  shows "accounted k w' = accounted k w"
  by (simp add: accounted_def linv_view [OF assms] tracked_view [OF assms])

lemma accounted_handleError:
  "accounted k w \<Longrightarrow> j < length (injections w) \<Longrightarrow> accounted k (handleError j e w)"
  by (simp add: accounted_def linv_handleError tracked_handleError)

lemma accounted_handleSuccess:
  "accounted k w \<Longrightarrow> j < length (injections w) \<Longrightarrow> bento w = Some b \<Longrightarrow>
   accounted k (handleSuccess j b w)"
  by (simp add: accounted_def linv_handleSuccess tracked_handleSuccess)

lemma accounted_run_listener:
  assumes "accounted k w"
  shows "accounted k (run_listener l w)"

proof (cases "l \<in> set (ready_listeners w)")
  case False
  with assms show ?thesis by (simp add: run_listener_def)

next
  case True
  show ?thesis
  proof (cases l)
    case (WaitReady j)
    with assms show ?thesis by (simp add: run_listener_def accounted_view [OF lv_wait_handleReady])
  next
    case (InjReady j)
    from assms have "well_formed w" by (simp add: accounted_def linv_def)
    with True InjReady have j: "j < length (injections w)" by (simp add: wf_alt)
    with assms InjReady True show ?thesis
      by (simp add: run_listener_def inj_handleReady_def accounted_handleError accounted_handleSuccess
          split: option.splits)
  qed

qed

lemma accounted_fire:
  assumes "accounted k w" "t \<in> set (timers w)"
  shows "accounted k (fire t w)"

proof (cases "fst t")
  case (WaitInterval j)
  with assms(1) show ?thesis by (simp add: accounted_view [OF lv_fire_wait])

next
  case (InjTimeout j)
  from assms(1) have "well_formed w" by (simp add: accounted_def linv_def)
  moreover from InjTimeout obtain d where "t = (InjTimeout j, d)" by (cases t) auto
  ultimately have j: "j < length (injections w)" using assms(2) unfolding wf_alt by blast
  from assms(1) have "accounted k (w\<lparr>timers := removeAll t (timers w)\<rparr>)"
    by (simp add: accounted_def linv_remove_timer tracked_frame [of "w\<lparr>timers := removeAll t (timers w)\<rparr>" w])
  from accounted_handleError [OF this] j show ?thesis
    by (simp add: fire_def InjTimeout inj_timeout_cb_def)

qed

lemma accounted_step:
  assumes "accounted k w" "e \<noteq> Reset" "\<forall>cfg. e \<noteq> Init cfg \<or> in_flight w k"
  shows "accounted k (step e w)"

proof (cases e)
  case (Init cfg)
  with assms(3) have f: "in_flight w k" by simp
  from assms(1) have "lbook w" by (simp add: accounted_def linv_def)
  from lbookD(1) [OF this f] have "loaderPromise w = Some k" by simp
  then have "snd (loadBento cfg w) = w" by (simp add: loadBento_def split: option.splits)
  with assms(1) Init show ?thesis by (simp add: step_def)

next
  case Reset
  with assms(2) show ?thesis by simp

next
  case (Invoke p a)
  with assms(1) show ?thesis by (simp add: step_def accounted_view [OF lv_invoke])

next
  case (Populate b)
  from assms(1) have "linv (step (Populate b) w)"
    by (intro linv_step) (simp_all add: accounted_def)
  with assms(1) Populate show ?thesis
    by (simp add: step_def accounted_def tracked_frame [of "w\<lparr>bento := Some b\<rparr>" w])

next
  case (PopulateDollar d)
  with assms(1) show ?thesis
    by (simp add: step_def accounted_def tracked_frame [of "w\<lparr>bento_dollar := Some d\<rparr>" w])

next
  case Ready
  with assms(1) show ?thesis
    by (simp add: step_def dispatch_ready_invariant [where I = "accounted k"] accounted_run_listener)

next
  case (ScriptError j)
  show ?thesis
  proof (cases "j < length (injections w) \<and> inj_element (injections w ! j)")
    case True
    from assms(1) have "accounted k (logline (LogScriptError j) w)"
      by (simp add: accounted_view [OF lv_logline])
    from accounted_handleError [OF this] True show ?thesis
      by (simp add: ScriptError step_def script_onerror_def)
  next
    case False
    with assms(1) show ?thesis by (auto simp: ScriptError step_def)
  qed

next
  case (Elapse dt)
  have "accounted k (elapse dt w)"
  proof (rule elapse_cases [where dt = dt and w = w])
    assume "elapse dt w = w\<lparr>now := now w + dt\<rparr>"
    with assms(1) show ?thesis
      by (simp add: accounted_def tracked_frame [of "w\<lparr>now := now w + dt\<rparr>" w])
  next
    fix t assume t: "t \<in> set (timers w)" and e: "elapse dt w = fire t (w\<lparr>now := max (now w) (snd t)\<rparr>)"
    from assms(1) have "accounted k (w\<lparr>now := max (now w) (snd t)\<rparr>)"
      by (simp add: accounted_def tracked_frame [of "w\<lparr>now := max (now w) (snd t)\<rparr>" w])
    from accounted_fire [OF this] t show ?thesis by (simp add: e)
  qed
  then show ?thesis by (simp add: Elapse step_def)

qed

text \<open>What being accounted for says about the two debugging accessors.\<close>

lemma accounted_reading:
  assumes "accounted k w"
  shows "(ld_promise (injections w ! k) = Pending \<and> in_flight w k \<and> isBentoLoading w)
       \<or> (\<exists>b. ld_promise (injections w ! k) = Resolved b \<and> getBentoLoadError w = None \<and> \<not> isBentoLoading w)
       \<or> (\<exists>e. ld_promise (injections w ! k) = Rejected e \<and> getBentoLoadError w = Some e \<and> \<not> isBentoLoading w)"

proof -
  from assms have lb: "lbook w" and inv: "linv w" and t: "tracked w k"
    by (simp_all add: accounted_def linv_def)
  from t have k: "k < length (injections w)" by (simp add: tracked_def)
  have idle: "\<not> isBentoLoading w" if "\<not> in_flight w k"
  proof
    assume "isBentoLoading w"
    with lbookD(2) [OF lb] obtain j where "j < length (injections w)" "\<not> hasResolved (injections w ! j)"
      by (auto simp: isBentoLoading_def)
    with tracked_settled [OF inv t that] show False by blast
  qed
  from t consider "in_flight w k" | b where "ld_promise (injections w ! k) = Resolved b"
    | e where "ld_promise (injections w ! k) = Rejected e" "loadError w = Some e"
    by (auto simp: tracked_def)
  then show ?thesis
  proof cases
    case 1
    from lbookD(1) [OF lb 1] 1 show ?thesis by (simp add: isBentoLoading_def)
  next
    case 2
    from lbookD(6) [OF lb k 2] have "loadError w = None" "\<not> in_flight w k"
      by (simp_all add: none_in_flight)
    with 2 idle show ?thesis by (simp add: getBentoLoadError_def)
  next
    case 3
    have "\<not> in_flight w k"
    proof
      assume "in_flight w k"
      from lbookD(1) [OF lb this] 3 show False by simp
    qed
    with 3 idle show ?thesis by (simp add: getBentoLoadError_def)
  qed

qed

lemma holding_view:
  assumes "loader_view w' = loader_view w"
  shows "holding e w' = holding e w"
  by (simp add: holding_def linv_view [OF assms] lv_fields [OF assms])

lemma holding_handlers:
  assumes "holding e w" "j < length (injections w)"
  shows "handleError j e' w = w" "handleSuccess j b w = w"

proof -
  from assms have "hasResolved (injections w ! j)"
    by (intro settled_when_idle) (simp_all add: holding_def)
  then show "handleError j e' w = w" "handleSuccess j b w = w" by simp_all

qed

lemma holding_run_listener:
  assumes "holding e w"
  shows "holding e (run_listener l w)"

proof (cases "l \<in> set (ready_listeners w)")
  case False
  with assms show ?thesis by (simp add: run_listener_def)

next
  case True
  show ?thesis
  proof (cases l)
    case (WaitReady j)
    with assms show ?thesis by (simp add: run_listener_def holding_view [OF lv_wait_handleReady])
  next
    case (InjReady j)
    from assms have "well_formed w" by (simp add: holding_def linv_def)
    with True InjReady have j: "j < length (injections w)" by (simp add: wf_alt)
    with assms InjReady True show ?thesis
      by (simp add: run_listener_def inj_handleReady_def holding_handlers split: option.splits)
  qed

qed

lemma holding_fire:
  assumes "holding e w" "t \<in> set (timers w)"
  shows "holding e (fire t w)"

proof (cases "fst t")
  case (WaitInterval j)
  with assms(1) show ?thesis by (simp add: holding_view [OF lv_fire_wait])

next
  case (InjTimeout j)
  from assms(1) have "well_formed w" by (simp add: holding_def linv_def)
  moreover from InjTimeout obtain d where "t = (InjTimeout j, d)" by (cases t) auto
  ultimately have j: "j < length (injections w)" using assms(2) unfolding wf_alt by blast
  from assms(1) have h: "holding e (w\<lparr>timers := removeAll t (timers w)\<rparr>)"
    by (simp add: holding_def linv_remove_timer)
  from holding_handlers(1) [OF h] j h show ?thesis
    by (simp add: fire_def InjTimeout inj_timeout_cb_def)

qed

lemma holding_step:
  assumes "holding e w" "ev \<noteq> Reset" "\<forall>cfg. ev \<noteq> Init cfg"
  shows "holding e (step ev w)"

proof (cases ev)
  case (Init cfg)
  with assms(3) show ?thesis by simp

next
  case Reset
  with assms(2) show ?thesis by simp

next
  case (Invoke p a)
  with assms(1) show ?thesis by (simp add: step_def holding_view [OF lv_invoke])

next
  case (Populate b)
  from assms(1) have "linv (step (Populate b) w)"
    by (intro linv_step) (simp_all add: holding_def)
  with assms(1) Populate show ?thesis by (simp add: step_def holding_def)

next
  case (PopulateDollar d)
  with assms(1) show ?thesis by (simp add: step_def holding_def)

next
  case Ready
  with assms(1) show ?thesis
    by (simp add: step_def dispatch_ready_invariant [where I = "holding e"] holding_run_listener)

next
  case (ScriptError j)
  show ?thesis
  proof (cases "j < length (injections w) \<and> inj_element (injections w ! j)")
    case True
    from assms(1) have h: "holding e (logline (LogScriptError j) w)"
      by (simp add: holding_view [OF lv_logline])
    from holding_handlers(1) [OF h] True h show ?thesis
      by (simp add: ScriptError step_def script_onerror_def)
  next
    case False
    with assms(1) show ?thesis by (auto simp: ScriptError step_def)
  qed

next
  case (Elapse dt)
  have "holding e (elapse dt w)"
  proof (rule elapse_cases [where dt = dt and w = w])
    assume "elapse dt w = w\<lparr>now := now w + dt\<rparr>"
    with assms(1) show ?thesis by (simp add: holding_def)
  next
    fix t assume t: "t \<in> set (timers w)" and e: "elapse dt w = fire t (w\<lparr>now := max (now w) (snd t)\<rparr>)"
    from assms(1) have "holding e (w\<lparr>now := max (now w) (snd t)\<rparr>)" by (simp add: holding_def)
    from holding_fire [OF this] t show ?thesis by (simp add: e)
  qed
  then show ?thesis by (simp add: Elapse step_def)

qed

text \<open>
  C10, as the code has it. Along every sequence of calls and page events that does not call
  \<^verbatim>\<open>resetBento\<close> while an injection is in flight, in the world it reaches:
  \<^verbatim>\<open>isBentoLoading()\<close> is true exactly when an injection is in flight; a stored error
  means that nothing is in flight and it is the configuration error or the error the most
  recent load promise was rejected with; once a load promise has resolved no error is
  stored. Any further event other than a reset leaves a load in flight either still
  pending with the flag set, or resolved with no error stored and the flag cleared, or
  rejected with its error stored and the flag cleared. A stored error stays as it is under
  every event other than \<^verbatim>\<open>init\<close> and \<^verbatim>\<open>resetBento\<close>, and \<^verbatim>\<open>resetBento\<close> clears it.
\<close>

theorem bookkeeping_consistent:
  assumes "no_reset_in_flight es (fresh_world host url)" and "w = run es (fresh_world host url)"
  shows "(isBentoLoading w \<longleftrightarrow> (\<exists>k. in_flight w k))
       \<and> (\<forall>e. getBentoLoadError w = Some e \<longrightarrow>
              (\<forall>k. \<not> in_flight w k) \<and>
              (e = InvalidSiteUuid \<or>
               (injections w \<noteq> [] \<and> ld_promise (last (injections w)) = Rejected e)))
       \<and> (\<forall>k b. k < length (injections w) \<and> ld_promise (injections w ! k) = Resolved b \<longrightarrow>
              getBentoLoadError w = None)
       \<and> (\<forall>k ev. in_flight w k \<and> ev \<noteq> Reset \<longrightarrow>
              (ld_promise (injections (step ev w) ! k) = Pending \<and> in_flight (step ev w) k \<and>
               isBentoLoading (step ev w))
            \<or> (\<exists>b. ld_promise (injections (step ev w) ! k) = Resolved b \<and>
                    getBentoLoadError (step ev w) = None \<and> \<not> isBentoLoading (step ev w))
            \<or> (\<exists>e. ld_promise (injections (step ev w) ! k) = Rejected e \<and>
                    getBentoLoadError (step ev w) = Some e \<and> \<not> isBentoLoading (step ev w)))
       \<and> (\<forall>e ev. getBentoLoadError w = Some e \<and> ev \<noteq> Reset \<and> (\<forall>cfg. ev \<noteq> Init cfg) \<longrightarrow>
              getBentoLoadError (step ev w) = Some e)
       \<and> getBentoLoadError (resetBento w) = None"

proof -
  have inv: "linv w" unfolding assms(2) by (rule linv_run [OF linv_fresh assms(1)])
  then have lb: "lbook w" by (simp add: linv_def)
  have 1: "isBentoLoading w \<longleftrightarrow> (\<exists>k. in_flight w k)"
    using lbookD(1,2) [OF lb] by (auto simp: isBentoLoading_def in_flight_def)
  have 2: "(\<forall>k. \<not> in_flight w k) \<and>
           (e = InvalidSiteUuid \<or> (injections w \<noteq> [] \<and> ld_promise (last (injections w)) = Rejected e))"
    if "getBentoLoadError w = Some e" for e
  proof -
    from that have le: "loadError w = Some e" by (simp add: getBentoLoadError_def)
    have "\<not> in_flight w k" for k
    proof
      assume "in_flight w k"
      from lbookD(1) [OF lb this] le show False by simp
    qed
    with lbookD(5) [OF lb le] show ?thesis by blast
  qed
  have 3: "getBentoLoadError w = None"
    if "k < length (injections w) \<and> ld_promise (injections w ! k) = Resolved b" for k b
    using lbookD(6) [of w k b] lb that by (simp add: getBentoLoadError_def)
  have 4: "(ld_promise (injections (step ev w) ! k) = Pending \<and> in_flight (step ev w) k \<and>
               isBentoLoading (step ev w))
            \<or> (\<exists>b. ld_promise (injections (step ev w) ! k) = Resolved b \<and>
                    getBentoLoadError (step ev w) = None \<and> \<not> isBentoLoading (step ev w))
            \<or> (\<exists>e. ld_promise (injections (step ev w) ! k) = Rejected e \<and>
                    getBentoLoadError (step ev w) = Some e \<and> \<not> isBentoLoading (step ev w))"
    if "in_flight w k \<and> ev \<noteq> Reset" for k ev
  proof -
    from that inv have "accounted k w" by (simp add: accounted_def tracked_def in_flight_def)
    from accounted_step [OF this, of ev] that have "accounted k (step ev w)" by simp
    then show ?thesis by (rule accounted_reading)
  qed
  have 5: "getBentoLoadError (step ev w) = Some e"
    if "getBentoLoadError w = Some e \<and> ev \<noteq> Reset \<and> (\<forall>cfg. ev \<noteq> Init cfg)" for e ev
  proof -
    from that inv have "holding e w" by (simp add: holding_def getBentoLoadError_def)
    from holding_step [OF this, of ev] that show ?thesis by (simp add: holding_def getBentoLoadError_def)
  qed
  have 6: "getBentoLoadError (resetBento w) = None" by (simp add: getBentoLoadError_def)
  from 1 2 3 4 5 6 show ?thesis by blast

qed

theorem bookkeeping_consistent_witness:
  "no_reset_in_flight [Init (site_abc\<lparr>timeout := Some 5000\<rparr>)] page
   \<and> in_flight (run [Init (site_abc\<lparr>timeout := Some 5000\<rparr>)] page) 0
   \<and> isBentoLoading (run [Init (site_abc\<lparr>timeout := Some 5000\<rparr>)] page)
   \<and> getBentoLoadError (step (Elapse 5000) (run [Init (site_abc\<lparr>timeout := Some 5000\<rparr>)] page))
       = Some (LoadTimeout 5000)
   \<and> \<not> isBentoLoading (step (Elapse 5000) (run [Init (site_abc\<lparr>timeout := Some 5000\<rparr>)] page))"

proof -
  define w where "w = run [Init (site_abc\<lparr>timeout := Some 5000\<rparr>)] page"
  have q: "no_reset_in_flight [Init (site_abc\<lparr>timeout := Some 5000\<rparr>)] (fresh_world ''example.com'' plain_url)"
    by simp
  have r: "w = run [Init (site_abc\<lparr>timeout := Some 5000\<rparr>)] (fresh_world ''example.com'' plain_url)"
    by (simp add: w_def page_def)
  have f: "in_flight w 0" unfolding w_def by (simp add: model_defs)
  have p: "ld_promise (injections (step (Elapse 5000) w) ! 0) = Rejected (LoadTimeout 5000)"
    unfolding w_def by (simp add: model_defs)
  note t = bookkeeping_consistent [OF q r]
  from t f have 1: "isBentoLoading w" by blast
  from t f have "(ld_promise (injections (step (Elapse 5000) w) ! 0) = Pending \<and>
        in_flight (step (Elapse 5000) w) 0 \<and> isBentoLoading (step (Elapse 5000) w))
     \<or> (\<exists>b. ld_promise (injections (step (Elapse 5000) w) ! 0) = Resolved b \<and>
             getBentoLoadError (step (Elapse 5000) w) = None \<and> \<not> isBentoLoading (step (Elapse 5000) w))
     \<or> (\<exists>e. ld_promise (injections (step (Elapse 5000) w) ! 0) = Rejected e \<and>
             getBentoLoadError (step (Elapse 5000) w) = Some e \<and> \<not> isBentoLoading (step (Elapse 5000) w))"
    by blast
  with p have 2: "getBentoLoadError (step (Elapse 5000) w) = Some (LoadTimeout 5000)
      \<and> \<not> isBentoLoading (step (Elapse 5000) w)" by auto
  from q f 1 2 show ?thesis unfolding w_def page_def by blast

qed

text \<open>
  \<^verbatim>\<open>resetBento\<close> clears \<^verbatim>\<open>isLoading\<close> whatever is in flight: after \<^verbatim>\<open>init\<close> and
  \<^verbatim>\<open>resetBento\<close> the injection is still in flight, with its listener and its timer, and
  \<^verbatim>\<open>isBentoLoading()\<close> is false.
\<close>

theorem bookkeeping_counterexample:
  "in_flight (run [Init site_abc, Reset] page) 0
   \<and> ready_listeners (run [Init site_abc, Reset] page) = [InjReady 0]
   \<and> timers (run [Init site_abc, Reset] page) = [(InjTimeout 0, 30000)]
   \<and> \<not> isBentoLoading (run [Init site_abc, Reset] page)"
  by (simp add: model_defs isBentoLoading_def)

subsection \<open>A readiness event that comes before the method\<close>

text \<open>
  C3 at an input where the code falls short of it. \<^verbatim>\<open>track('x')\<close> is called with the
  binding absent; the readiness event is dispatched while \<^verbatim>\<open>track\<close> is still missing;
  the binding appears with \<^verbatim>\<open>track\<close> 100 ms later. \<^verbatim>\<open>handleReady\<close> has cleared the
  interval and removed the listener before it checked, so nothing looks again: five
  seconds later the method is available, the wait is still pending, nothing has reached
  the binding and nothing is on the console. Without the readiness event the same call is
  dispatched by the next poll.
\<close>

theorem ready_before_method_stops_polling:
  "method_available (run [Invoke ''track'' [JStr ''x''], Ready, Elapse 100,
        Populate [(''track'', Fn (Returns JUndefined))], Elapse 100, Elapse 5000] page) ''track''
   \<and> now (run [Invoke ''track'' [JStr ''x''], Ready, Elapse 100,
        Populate [(''track'', Fn (Returns JUndefined))], Elapse 100, Elapse 5000] page) = 5200
   \<and> w_promise (waits (run [Invoke ''track'' [JStr ''x''], Ready, Elapse 100,
        Populate [(''track'', Fn (Returns JUndefined))], Elapse 100, Elapse 5000] page) ! 0) = Pending
   \<and> calls (run [Invoke ''track'' [JStr ''x''], Ready, Elapse 100,
        Populate [(''track'', Fn (Returns JUndefined))], Elapse 100, Elapse 5000] page) = []
   \<and> console (run [Invoke ''track'' [JStr ''x''], Ready, Elapse 100,
        Populate [(''track'', Fn (Returns JUndefined))], Elapse 100, Elapse 5000] page) = []
   \<and> timers (run [Invoke ''track'' [JStr ''x''], Ready, Elapse 100,
        Populate [(''track'', Fn (Returns JUndefined))], Elapse 100, Elapse 5000] page) = []
   \<and> ready_listeners (run [Invoke ''track'' [JStr ''x''], Ready, Elapse 100,
        Populate [(''track'', Fn (Returns JUndefined))], Elapse 100, Elapse 5000] page) = []
   \<and> calls (run [Invoke ''track'' [JStr ''x''], Elapse 100,
        Populate [(''track'', Fn (Returns JUndefined))], Elapse 100] page) = [(''track'', [JStr ''x''])]"
  by (simp add: model_defs)

subsection \<open>The synchronous \<^verbatim>\<open>getEmail\<close>\<close>

text \<open>
  C9. The proxied \<^verbatim>\<open>getEmail\<close> never waits. In every state of the page and the module,
  with or without a prior \<^verbatim>\<open>init\<close>, the call returns at once: it gives what the binding's
  \<^verbatim>\<open>getEmail()\<close> gives when the binding is populated and has that function, and
  \<^verbatim>\<open>undefined\<close> otherwise. It registers no wait, no timer and no listener, and touches
  neither the injections nor the document.
\<close>

theorem getEmail_never_waits:
  "fst (invoke ''getEmail'' args w) =
     (case binding_getEmail w of
        None \<Rightarrow> Ret JUndefined
      | Some (Returns v) \<Rightarrow> Ret v
      | Some (Throws s) \<Rightarrow> Threw s)
   \<and> waits (snd (invoke ''getEmail'' args w)) = waits w
   \<and> timers (snd (invoke ''getEmail'' args w)) = timers w
   \<and> ready_listeners (snd (invoke ''getEmail'' args w)) = ready_listeners w
   \<and> injections (snd (invoke ''getEmail'' args w)) = injections w
   \<and> head (snd (invoke ''getEmail'' args w)) = head w"
  by (simp add: invoke_def proxy_get_def getEmail_fn_def binding_getEmail_def
      split: option.splits slot.splits outcome.splits)

theorem getEmail_never_waits_witness:
  "fst (invoke ''getEmail'' [] (fresh_world ''localhost'' (\<lambda>b u. None))) = Ret JUndefined
   \<and> fst (invoke ''getEmail'' []
        ((fresh_world ''localhost'' (\<lambda>b u. None))
           \<lparr>bento := Some [(''getEmail'', Fn (Returns (JStr ''a@b.c'')))]\<rparr>))
       = Ret (JStr ''a@b.c'')"
  using getEmail_never_waits [of "[]" "fresh_world ''localhost'' (\<lambda>b u. None)"]
    getEmail_never_waits [of "[]" "(fresh_world ''localhost'' (\<lambda>b u. None))
           \<lparr>bento := Some [(''getEmail'', Fn (Returns (JStr ''a@b.c'')))]\<rparr>"]
  by (simp add: binding_getEmail_def fresh_world_def)

end
